theory Spec2Isabelle
  imports Main
begin

section \<open>Data model of the Minesweeper board (GameBoard.tsx, constants.ts)\<close>

text \<open>
  The constants module exports \<^verbatim>\<open>GRID_SIZE = { row: 8, col: 8 }\<close> and
  \<^verbatim>\<open>NUM_MINES = 10\<close>. The functions below take the constants as a
  parameter, so that every statement holds for any grid; \<open>constants\<close> is the
  shipped instance.
\<close>

record config =
  GRID_SIZE_row :: nat
  GRID_SIZE_col :: nat
  NUM_MINES :: nat

definition constants :: config where
  "constants = \<lparr>GRID_SIZE_row = 8, GRID_SIZE_col = 8, NUM_MINES = 10\<rparr>"

text \<open>
  \<^verbatim>\<open>interface CellProps\<close>: the two click callbacks carry no game data and
  are left out. Coordinates are array indices, hence naturals; the arithmetic
  \<^verbatim>\<open>row + i\<close> with \<^verbatim>\<open>i = -1\<close> is done on integers.
\<close>

record CellProps =
  isMine :: bool
  isRevealed :: bool
  isFlagged :: bool
  adjacentMines :: nat
  surroundingCells :: "(nat \<times> nat) list"

type_synonym grid = "CellProps list list"

text \<open>Reading a property of \<^verbatim>\<open>board[r][c]\<close> outside the arrays throws a TypeError.\<close>

datatype error = TypeError

definition cellAt :: "grid \<Rightarrow> nat \<Rightarrow> nat \<Rightarrow> error + CellProps" where
  "cellAt b r c =
     (if r < length b \<and> c < length (b ! r) then Inr (b ! r ! c) else Inl TypeError)"

text \<open>\<^verbatim>\<open>board[r][c] = v\<close>, used only after a successful read of the same place.\<close>

definition setCell :: "grid \<Rightarrow> nat \<Rightarrow> nat \<Rightarrow> CellProps \<Rightarrow> grid" where
  "setCell b r c v = b[r := (b ! r)[c := v]]"

subsection \<open>surroundingCells and adjacentMines\<close>

text \<open>
  The two nested loops \<^verbatim>\<open>for (i = -1; i <= 1; i++) for (j = -1; j <= 1; j++)\<close>.
  Neither function skips the offset \<^verbatim>\<open>i = 0, j = 0\<close>.
\<close>

definition offsets :: "int list" where
  "offsets = [-1, 0, 1]"

definition surroundingCells_of :: "config \<Rightarrow> nat \<Rightarrow> nat \<Rightarrow> (nat \<times> nat) list" where
  "surroundingCells_of k row col =
     concat (map (\<lambda>i. concat (map (\<lambda>j.
       (let newRow = int row + i; newCol = int col + j
        in if newRow \<ge> 0 \<and> newRow < int (GRID_SIZE_row k) \<and>
              newCol \<ge> 0 \<and> newCol < int (GRID_SIZE_col k)
           then [(nat newRow, nat newCol)] else [])) offsets)) offsets)"

text \<open>
  \<^verbatim>\<open>adjacentMines(row, col, board)\<close>: the same two loops with a counter.
  The bounds test comes first in the conjunction and the read of
  \<^verbatim>\<open>board[newRow][newCol].isMine\<close> last; the read throws when the board
  is smaller than \<^verbatim>\<open>GRID_SIZE\<close>.
\<close>

definition adjacentMines_body ::
    "config \<Rightarrow> nat \<Rightarrow> nat \<Rightarrow> grid \<Rightarrow> int \<Rightarrow> int \<Rightarrow> error + nat \<Rightarrow> error + nat" where
  "adjacentMines_body k row col board i j acc =
     (case acc of
        Inl e \<Rightarrow> Inl e
      | Inr count \<Rightarrow>
          (let newRow = int row + i; newCol = int col + j
           in if newRow \<ge> 0 \<and> newRow < int (GRID_SIZE_row k) \<and>
                 newCol \<ge> 0 \<and> newCol < int (GRID_SIZE_col k)
              then (case cellAt board (nat newRow) (nat newCol) of
                      Inl e \<Rightarrow> Inl e
                    | Inr cell \<Rightarrow> Inr (if isMine cell then count + 1 else count))
              else Inr count))"

definition adjacentMines_of :: "config \<Rightarrow> nat \<Rightarrow> nat \<Rightarrow> grid \<Rightarrow> error + nat" where
  "adjacentMines_of k row col board =
     fold (\<lambda>i. fold (adjacentMines_body k row col board i) offsets) offsets (Inr 0)"

subsection \<open>setMines\<close>

text \<open>
  \<^verbatim>\<open>Math.random\<close> is modelled by the list of the pairs it is going to
  produce: one entry is
  \<^verbatim>\<open>(Math.floor(Math.random() * board.length), Math.floor(Math.random() * board[0].length))\<close>.
  The loop consumes one pair per iteration. \<open>None\<close> means that the loop is
  still running when the list is used up; \<open>Some (Inl e)\<close> that it threw;
  \<open>Some (Inr b)\<close> that it returned with the board \<open>b\<close>.
\<close>

fun setMines_loop ::
    "nat \<Rightarrow> (nat \<times> nat) list \<Rightarrow> nat \<Rightarrow> grid \<Rightarrow> (error + grid) option" where
  "setMines_loop numMines [] minesPlaced board =
     (if minesPlaced < numMines then None else Some (Inr board))"
| "setMines_loop numMines ((randomRow, randomCol) # draws) minesPlaced board =
     (if minesPlaced < numMines then
        (if board = [] then Some (Inl TypeError)
         else case cellAt board randomRow randomCol of
                Inl e \<Rightarrow> Some (Inl e)
              | Inr cell \<Rightarrow>
                  if \<not> isMine cell
                  then setMines_loop numMines draws (minesPlaced + 1)
                         (setCell board randomRow randomCol (cell\<lparr>isMine := True\<rparr>))
                  else setMines_loop numMines draws minesPlaced board)
      else Some (Inr board))"

definition setMines :: "nat \<Rightarrow> (nat \<times> nat) list \<Rightarrow> grid \<Rightarrow> (error + grid) option" where
  "setMines numMines draws board = setMines_loop numMines draws 0 board"

subsection \<open>initializeBoard\<close>

definition initializeCell :: CellProps where
  "initializeCell =
     \<lparr>isMine = False, isRevealed = False, isFlagged = False,
      adjacentMines = 0, surroundingCells = []\<rparr>"

text \<open>
  The body of the double \<^verbatim>\<open>map\<close> at one cell. It writes into the cell
  object of \<^verbatim>\<open>newBoard\<close> itself, so later cells read the board as
  already updated.
\<close>

definition initializeBoard_cell :: "config \<Rightarrow> nat \<times> nat \<Rightarrow> error + grid \<Rightarrow> error + grid" where
  "initializeBoard_cell k p acc =
     (case acc of
        Inl e \<Rightarrow> Inl e
      | Inr newBoard \<Rightarrow>
          (let rowIndex = fst p; colIndex = snd p; cell = newBoard ! rowIndex ! colIndex
           in if \<not> isMine cell
              then (case adjacentMines_of k rowIndex colIndex newBoard of
                      Inl e \<Rightarrow> Inl e
                    | Inr n \<Rightarrow>
                        Inr (setCell newBoard rowIndex colIndex
                               (cell\<lparr>adjacentMines := n,
                                     surroundingCells := surroundingCells_of k rowIndex colIndex\<rparr>)))
              else Inr (setCell newBoard rowIndex colIndex
                          (cell\<lparr>surroundingCells := surroundingCells_of k rowIndex colIndex\<rparr>))))"

text \<open>The index pairs in the order in which the double \<^verbatim>\<open>map\<close> visits them.\<close>

definition positions :: "grid \<Rightarrow> (nat \<times> nat) list" where
  "positions b = concat (map (\<lambda>r. map (\<lambda>c. (r, c)) [0..<length (b ! r)]) [0..<length b])"

definition initializeBoard :: "config \<Rightarrow> (nat \<times> nat) list \<Rightarrow> (error + grid) option" where
  "initializeBoard k draws =
     (let newBoard = replicate (GRID_SIZE_row k) (replicate (GRID_SIZE_col k) initializeCell)
      in case setMines (NUM_MINES k) draws newBoard of
           None \<Rightarrow> None
         | Some (Inl e) \<Rightarrow> Some (Inl e)
         | Some (Inr mined) \<Rightarrow> Some (fold (initializeBoard_cell k) (positions mined) (Inr mined)))"

section \<open>The GameBoard component: state and event handlers\<close>

text \<open>
  The six \<^verbatim>\<open>useState\<close> cells of the component. The counters are
  JavaScript numbers that the handlers only increment and decrement, hence
  integers.

  A handler is a closure of one call of the component function, a render: it
  reads the values that \<^verbatim>\<open>board\<close> and \<^verbatim>\<open>revealedCount\<close> had in that
  render, and it queues its updates. The counter updates are all of the form
  \<^verbatim>\<open>prev => prev + 1\<close>, so they act on the state at the time of the call,
  whatever the render has seen; the other setters are given a value. The record
  passed to a handler below is the state at the time of the call, with the board
  of the handler's render in the field \<open>board\<close>; applying the updates to it gives
  the next state. Where a handler can run later than its render, the value of
  \<^verbatim>\<open>revealedCount\<close> that the render has seen is an argument of its own.

  The rows of \<^verbatim>\<open>newBoard = [...board]\<close> are the row arrays of
  \<^verbatim>\<open>board\<close>, so the writes to \<^verbatim>\<open>newBoard\<close> are what
  \<^verbatim>\<open>recursiveSurroundCells\<close> reads through \<^verbatim>\<open>board\<close>: one grid is
  threaded through.
\<close>

record GameBoard =
  board :: grid
  flagCount :: int
  revealedCount :: int
  isGameStart :: bool
  isGameOver :: bool
  isGameWon :: bool

definition countCells :: "(CellProps \<Rightarrow> bool) \<Rightarrow> grid \<Rightarrow> nat" where
  "countCells P b = length (filter P (concat b))"

subsection \<open>recursiveSurroundCells\<close>

text \<open>
  \<^verbatim>\<open>surrounding.forEach\<close> is the recursion over the list; the call on the
  neighbours of a cell without adjacent mines is nested in it and runs to its
  end before the next element is looked at.
\<close>

function recursiveSurroundCells :: "GameBoard \<Rightarrow> (nat \<times> nat) list \<Rightarrow> error + GameBoard" where
  "recursiveSurroundCells s [] = Inr s"
| "recursiveSurroundCells s (cell # surrounding) =
     (case cellAt (board s) (fst cell) (snd cell) of
        Inl e \<Rightarrow> Inl e
      | Inr x \<Rightarrow>
          if \<not> isFlagged x \<and> \<not> isMine x \<and> \<not> isRevealed x
          then (let s1 = s\<lparr>board := setCell (board s) (fst cell) (snd cell) (x\<lparr>isRevealed := True\<rparr>),
                            revealedCount := revealedCount s + 1\<rparr>
                in case (if adjacentMines x = 0
                         then recursiveSurroundCells s1 (surroundingCells x)
                         else Inr s1) of
                     Inl e \<Rightarrow> Inl e
                   | Inr s2 \<Rightarrow> recursiveSurroundCells s2 surrounding)
          else recursiveSurroundCells s surrounding)"
  by pat_completeness auto

subsection \<open>revealedCell\<close>

definition revealAll :: "grid \<Rightarrow> grid" where
  "revealAll b = map (map (\<lambda>cell. cell\<lparr>isRevealed := True\<rparr>)) b"

definition forceFlag :: "CellProps \<Rightarrow> CellProps" where
  "forceFlag cell =
     (if isRevealed cell = False \<and> isFlagged cell = False then cell\<lparr>isFlagged := True\<rparr> else cell)"

definition winThreshold :: "config \<Rightarrow> int" where
  "winThreshold k = int (GRID_SIZE_row k) * int (GRID_SIZE_col k) - int (NUM_MINES k)"

text \<open>
  \<open>revealedCell_closure k seen s row col\<close> is the body of
  \<^verbatim>\<open>revealedCell(row, col)\<close> in a render that has read the value \<open>seen\<close> from
  \<^verbatim>\<open>revealedCount\<close>: the test of the winning branch compares \<open>seen\<close>, while
  \<^verbatim>\<open>setRevealedCount(prev => prev + 1)\<close> adds to the counter of \<open>s\<close>. In the
  winning branch \<^verbatim>\<open>setFlagCount(prev => prev + 1)\<close> is queued once for every
  cell that gets its flag: the counter grows by their number.
\<close>

definition revealedCell_closure ::
    "config \<Rightarrow> int \<Rightarrow> GameBoard \<Rightarrow> nat \<Rightarrow> nat \<Rightarrow> error + GameBoard" where
  "revealedCell_closure k seen s row col =
     (case cellAt (board s) row col of
        Inl e \<Rightarrow> Inl e
      | Inr cell \<Rightarrow>
          if isRevealed cell \<or> isFlagged cell then Inr s
          else
            (let s1 = s\<lparr>board := setCell (board s) row col (cell\<lparr>isRevealed := True\<rparr>),
                        revealedCount := revealedCount s + 1,
                        isGameStart := True\<rparr>
             in if isMine cell
                then Inr (s1\<lparr>isGameOver := True, board := revealAll (board s1)\<rparr>)
                else if seen = winThreshold k - 1
                then Inr (s1\<lparr>isGameWon := True,
                             board := map (map forceFlag) (board s1),
                             flagCount := flagCount s1 +
                               int (countCells (\<lambda>c. isRevealed c = False \<and> isFlagged c = False)
                                      (board s1))\<rparr>)
                else if adjacentMines cell = 0
                then recursiveSurroundCells s1 (surroundingCells cell)
                else Inr s1))"

text \<open>
  The call in the render that holds the state \<open>s\<close> itself: the counter it has
  seen is the counter of \<open>s\<close>.
\<close>

definition revealedCell :: "config \<Rightarrow> GameBoard \<Rightarrow> nat \<Rightarrow> nat \<Rightarrow> error + GameBoard" where
  "revealedCell k s row col = revealedCell_closure k (revealedCount s) s row col"

subsection \<open>flagToggleSet\<close>

text \<open>
  \<^verbatim>\<open>flagToggleSet\<close> is only called while its render is on screen (from
  \<^verbatim>\<open>handleDesktopRightClick\<close>, and from \<^verbatim>\<open>handleClick\<close> on a second
  press), so the counter it compares is the counter of \<open>s\<close>.
\<close>

definition flagToggleSet :: "config \<Rightarrow> GameBoard \<Rightarrow> nat \<Rightarrow> nat \<Rightarrow> error + GameBoard" where
  "flagToggleSet k s row col =
     (case cellAt (board s) row col of
        Inl e \<Rightarrow> Inl e
      | Inr cell \<Rightarrow>
          if \<not> isRevealed cell
          then (let s1 = (if isFlagged cell
                          then s\<lparr>flagCount := flagCount s - 1,
                                  board := setCell (board s) row col (cell\<lparr>isFlagged := False\<rparr>)\<rparr>
                          else s\<lparr>flagCount := flagCount s + 1,
                                  board := setCell (board s) row col (cell\<lparr>isFlagged := True\<rparr>)\<rparr>);
                    s2 = (if revealedCount s = winThreshold k then s1\<lparr>isGameWon := True\<rparr> else s1)
                in Inr (s2\<lparr>isGameStart := True\<rparr>))
          else Inr s)"

subsection \<open>Mounting and handleFaceClick\<close>

definition useState_initial :: GameBoard where
  "useState_initial =
     \<lparr>board = [], flagCount = 0, revealedCount = 0,
      isGameStart = False, isGameOver = False, isGameWon = False\<rparr>"

text \<open>The effect that runs once after the first render: \<^verbatim>\<open>initializeBoard()\<close>.\<close>

definition useEffect_mount :: "config \<Rightarrow> (nat \<times> nat) list \<Rightarrow> (error + GameBoard) option" where
  "useEffect_mount k draws =
     (case initializeBoard k draws of
        None \<Rightarrow> None
      | Some (Inl e) \<Rightarrow> Some (Inl e)
      | Some (Inr b) \<Rightarrow> Some (Inr (useState_initial\<lparr>board := b\<rparr>)))"

definition handleFaceClick ::
    "config \<Rightarrow> GameBoard \<Rightarrow> (nat \<times> nat) list \<Rightarrow> (error + GameBoard) option" where
  "handleFaceClick k s draws =
     (case initializeBoard k draws of
        None \<Rightarrow> None
      | Some (Inl e) \<Rightarrow> Some (Inl e)
      | Some (Inr b) \<Rightarrow>
          Some (Inr (s\<lparr>flagCount := 0, revealedCount := 0, isGameStart := False,
                        isGameOver := False, isGameWon := False, board := b\<rparr>)))"

section \<open>Renders, timers and events\<close>

text \<open>
  Every call of the component function has its own variables: the board array
  and the counter it has read from the state, and \<^verbatim>\<open>let clickCount = 0\<close>. Its
  handlers, and the timer that its \<^verbatim>\<open>handleClick\<close> sets, keep reading these
  variables after later renders have replaced it on screen.

  \<open>boards\<close> lists the boards that \<^verbatim>\<open>initializeBoard\<close> has made, oldest first.
  Every array \<^verbatim>\<open>[...board]\<close> shares its row arrays with the array it was
  copied from, and the handlers write into the rows, so all the arrays that
  descend from one call of \<^verbatim>\<open>initializeBoard\<close> are one grid; a render refers to
  its board by the index of that grid. \<open>shown\<close> is the index of the board in the
  state, and \<open>state\<close> the state itself, with the cells of that board. \<open>renders\<close>
  lists the renders, the last one being on screen. \<open>timers\<close> lists the pending
  timeouts, oldest first, each with the index of the render that has set it and
  with the cell; they all have the delay \<^verbatim>\<open>TAP_DELAY\<close>, so they run in the
  order in which they were set.

  One event is one step: a press on a cell, a secondary click on a cell, a
  timeout that runs, or a press on the face button. How much time passes
  between two events is left open. React is taken to have put the render of the
  new state on screen before the next event arrives; it makes a new render when
  a handler has called a setter, which the handlers do unless they leave through
  the test of \<^verbatim>\<open>isRevealed\<close> and \<^verbatim>\<open>isFlagged\<close> at their beginning.
\<close>

record render =
  r_board :: nat
  r_revealedCount :: int
  clickCount :: nat

record world =
  boards :: "grid list"
  shown :: nat
  state :: GameBoard
  renders :: "render list"
  timers :: "(nat \<times> nat \<times> nat) list"

text \<open>
  \<^verbatim>\<open>setBoard(newBoard)\<close> and the other updates of a handler whose board is
  the grid \<open>g\<close>, followed by the render of the new state \<open>s'\<close>.
\<close>

definition rerender :: "world \<Rightarrow> nat \<Rightarrow> GameBoard \<Rightarrow> world" where
  "rerender w g s' =
     w\<lparr>state := s', boards := (boards w)[g := board s'], shown := g,
       renders := renders w @
         [\<lparr>r_board = g, r_revealedCount = revealedCount s', clickCount = 0\<rparr>]\<rparr>"

definition setClickCount :: "world \<Rightarrow> nat \<Rightarrow> nat \<Rightarrow> world" where
  "setClickCount w i n = w\<lparr>renders := (renders w)[i := (renders w ! i)\<lparr>clickCount := n\<rparr>]\<rparr>"

text \<open>
  \<^verbatim>\<open>flagToggleSet(row, col)\<close> of the render on screen, which holds the state,
  and the render that follows; on a revealed cell the handler calls no setter,
  and no render follows.
\<close>

definition flagToggle_event :: "config \<Rightarrow> world \<Rightarrow> nat \<Rightarrow> nat \<Rightarrow> error + world" where
  "flagToggle_event k w row col =
     (case cellAt (board (state w)) row col of
        Inl e \<Rightarrow> Inl e
      | Inr cell \<Rightarrow>
          if isRevealed cell then Inr w
          else (case flagToggleSet k (state w) row col of
                  Inl e \<Rightarrow> Inl e
                | Inr s' \<Rightarrow> Inr (rerender w (shown w) s')))"

definition handleDesktopRightClick :: "config \<Rightarrow> world \<Rightarrow> nat \<Rightarrow> nat \<Rightarrow> error + world" where
  "handleDesktopRightClick k w row col = flagToggle_event k w row col"

text \<open>
  \<^verbatim>\<open>handleClick(row, col)\<close> of the render on screen: it counts the press in
  the \<^verbatim>\<open>clickCount\<close> of that render, and either sets the timer or toggles the
  flag.
\<close>

definition handleClick :: "config \<Rightarrow> world \<Rightarrow> nat \<Rightarrow> nat \<Rightarrow> error + world" where
  "handleClick k w row col =
     (let i = length (renders w) - 1;
          w1 = setClickCount w i (clickCount (renders w ! i) + 1)
      in if clickCount (renders w1 ! i) < 2
         then Inr (w1\<lparr>timers := timers w1 @ [(i, row, col)]\<rparr>)
         else flagToggle_event k w1 row col)"

text \<open>
  The callback of the oldest timer. It belongs to the render \<open>i\<close>: it tests the
  \<^verbatim>\<open>clickCount\<close> of that render, calls the \<^verbatim>\<open>revealedCell\<close> of that
  render, which reads the board and the counter of that render, and resets the
  \<^verbatim>\<open>clickCount\<close> of that render. The state that the updates act on is the
  state at the time of the callback. The test of the cell is the one at the
  beginning of \<^verbatim>\<open>revealedCell\<close>: where it holds the handler returns before
  any setter is called, and no render follows. When no timer is pending nothing
  happens.
\<close>

definition timeout :: "config \<Rightarrow> world \<Rightarrow> error + world" where
  "timeout k w =
     (case timers w of
        [] \<Rightarrow> Inr w
      | (i, row, col) # rest \<Rightarrow>
          (let w1 = w\<lparr>timers := rest\<rparr>;
               r = renders w1 ! i;
               s = (state w1)\<lparr>board := boards w1 ! r_board r\<rparr>
           in case (if clickCount r < 2
                    then (case cellAt (board s) row col of
                            Inl e \<Rightarrow> Inl e
                          | Inr cell \<Rightarrow>
                              if isRevealed cell \<or> isFlagged cell then Inr w1
                              else (case revealedCell_closure k (r_revealedCount r) s row col of
                                      Inl e \<Rightarrow> Inl e
                                    | Inr s' \<Rightarrow> Inr (rerender w1 (r_board r) s')))
                    else Inr w1) of
                Inl e \<Rightarrow> Inl e
              | Inr w2 \<Rightarrow> Inr (setClickCount w2 i 0)))"

text \<open>
  The face button: \<^verbatim>\<open>handleFaceClick\<close> of the render on screen. The new board
  is a new grid. Mounting makes the first one.
\<close>

definition faceClick :: "config \<Rightarrow> world \<Rightarrow> (nat \<times> nat) list \<Rightarrow> (error + world) option" where
  "faceClick k w draws =
     (case handleFaceClick k (state w) draws of
        None \<Rightarrow> None
      | Some (Inl e) \<Rightarrow> Some (Inl e)
      | Some (Inr s') \<Rightarrow>
          Some (Inr (w\<lparr>state := s', boards := boards w @ [board s'], shown := length (boards w),
                       renders := renders w @
                         [\<lparr>r_board = length (boards w), r_revealedCount = revealedCount s',
                           clickCount = 0\<rparr>]\<rparr>)))"

definition mount :: "config \<Rightarrow> (nat \<times> nat) list \<Rightarrow> (error + world) option" where
  "mount k draws =
     (case useEffect_mount k draws of
        None \<Rightarrow> None
      | Some (Inl e) \<Rightarrow> Some (Inl e)
      | Some (Inr s) \<Rightarrow>
          Some (Inr \<lparr>boards = [board s], shown = 0, state = s,
                     renders = [\<lparr>r_board = 0, r_revealedCount = revealedCount s, clickCount = 0\<rparr>],
                     timers = []\<rparr>))"

datatype event =
  Click nat nat
| RightClick nat nat
| Timeout
| FaceClick "(nat \<times> nat) list"

fun step :: "config \<Rightarrow> world \<Rightarrow> event \<Rightarrow> (error + world) option" where
  "step k w (Click row col) = Some (handleClick k w row col)"
| "step k w (RightClick row col) = Some (handleDesktopRightClick k w row col)"
| "step k w Timeout = Some (timeout k w)"
| "step k w (FaceClick draws) = faceClick k w draws"

text \<open>
  The grid is rendered with \<^verbatim>\<open>board.map\<close>, so a cell can be pressed only
  where the board in the state has one.
\<close>

fun possible :: "world \<Rightarrow> event \<Rightarrow> bool" where
  "possible w (Click row col) = (row < length (board (state w)) \<and> col < length (board (state w) ! row))"
| "possible w (RightClick row col) = (row < length (board (state w)) \<and> col < length (board (state w) ! row))"
| "possible w Timeout = True"
| "possible w (FaceClick draws) = True"

subsection \<open>The worlds the component can be in\<close>

inductive reachable :: "config \<Rightarrow> world \<Rightarrow> bool" for k :: config where
  mounted: "mount k draws = Some (Inr w) \<Longrightarrow> reachable k w"
| event: "reachable k w \<Longrightarrow> possible w e \<Longrightarrow> step k w e = Some (Inr w') \<Longrightarrow> reachable k w'"

section \<open>Notions for the statements\<close>

text \<open>
  A position \<open>(r, c)\<close> is on the grid \<open>b\<close> when \<open>b[r][c]\<close> exists (\<open>inb\<close>);
  \<open>cell b (r, c)\<close> is the cell there. \<open>hasSize R C b\<close>: the grid has \<open>R\<close> rows of
  \<open>C\<close> cells.
\<close>

definition inb :: "grid \<Rightarrow> nat \<times> nat \<Rightarrow> bool" where
  "inb b p \<longleftrightarrow> fst p < length b \<and> snd p < length (b ! fst p)"

definition cell :: "grid \<Rightarrow> nat \<times> nat \<Rightarrow> CellProps" where
  "cell b p = b ! fst p ! snd p"

definition hasSize :: "nat \<Rightarrow> nat \<Rightarrow> grid \<Rightarrow> bool" where
  "hasSize R C b \<longleftrightarrow> length b = R \<and> (\<forall>r<R. length (b ! r) = C)"

text \<open>
  \<open>mineCount b ps\<close> counts the entries of the list \<open>ps\<close> that are mines of \<open>b\<close>.
  \<open>adjacent8\<close> is the relation between a position and the eight around it, and
  \<open>neighbors_spec\<close> the list of the specification: the up to eight surrounding
  positions that lie on the grid.
\<close>

definition mineCount :: "grid \<Rightarrow> (nat \<times> nat) list \<Rightarrow> nat" where
  "mineCount b ps = length (filter (\<lambda>p. isMine (cell b p)) ps)"

definition adjacent8 :: "nat \<times> nat \<Rightarrow> nat \<times> nat \<Rightarrow> bool" where
  "adjacent8 p q \<longleftrightarrow>
     q \<noteq> p \<and> fst q \<le> fst p + 1 \<and> fst p \<le> fst q + 1 \<and>
     snd q \<le> snd p + 1 \<and> snd p \<le> snd q + 1"

definition neighbors_spec :: "config \<Rightarrow> nat \<times> nat \<Rightarrow> (nat \<times> nat) list" where
  "neighbors_spec k p =
     filter (adjacent8 p) (List.product [0..<GRID_SIZE_row k] [0..<GRID_SIZE_col k])"

text \<open>
  The draws that \<^verbatim>\<open>Math.floor(Math.random() * n)\<close> can produce on the grid
  of the constants: indices of a row and of a column.
\<close>

definition inRange :: "config \<Rightarrow> (nat \<times> nat) list \<Rightarrow> bool" where
  "inRange k draws = list_all (\<lambda>d. fst d < GRID_SIZE_row k \<and> snd d < GRID_SIZE_col k) draws"

text \<open>
  Chains of cells, for the flood fill. \<open>fillChain b p qs\<close>: starting at \<open>p\<close>, each
  step leaves a cell without adjacent mines for one of its eight neighbours, which
  is on the grid, unrevealed, unflagged and not a mine. \<open>zeroChain\<close> is the chain
  of the specification's wording, which asks nothing of \<open>isRevealed\<close> and
  \<open>isFlagged\<close>: it walks through the cells without adjacent mines that are not
  mines, and may end in a numbered cell.
\<close>

fun fillChain :: "grid \<Rightarrow> nat \<times> nat \<Rightarrow> (nat \<times> nat) list \<Rightarrow> bool" where
  "fillChain b p [] = True"
| "fillChain b p (q # qs) =
     (adjacentMines (cell b p) = 0 \<and> adjacent8 p q \<and> inb b q \<and>
      \<not> isRevealed (cell b q) \<and> \<not> isFlagged (cell b q) \<and> \<not> isMine (cell b q) \<and>
      fillChain b q qs)"

fun zeroChain :: "grid \<Rightarrow> nat \<times> nat \<Rightarrow> (nat \<times> nat) list \<Rightarrow> bool" where
  "zeroChain b p [] = True"
| "zeroChain b p (q # qs) =
     (adjacentMines (cell b p) = 0 \<and> \<not> isMine (cell b p) \<and> adjacent8 p q \<and> inb b q \<and>
      \<not> isMine (cell b q) \<and> zeroChain b q qs)"

text \<open>
  The board or state that a call has returned (the empty board and the initial
  state stand for an exception), and the state after mounting.
\<close>

definition boardOf :: "(error + grid) option \<Rightarrow> grid" where
  "boardOf x = (case x of Some (Inr b) \<Rightarrow> b | _ \<Rightarrow> [])"

definition stateOf :: "error + GameBoard \<Rightarrow> GameBoard" where
  "stateOf x = (case x of Inr s \<Rightarrow> s | Inl e \<Rightarrow> useState_initial)"

definition mounted :: "config \<Rightarrow> (nat \<times> nat) list \<Rightarrow> GameBoard" where
  "mounted k draws = (case useEffect_mount k draws of Some (Inr s) \<Rightarrow> s | _ \<Rightarrow> useState_initial)"

text \<open>
  The world that an event has led to (the world itself stands for an exception
  and for a generation that has not returned), the world after a list of events,
  and the world after mounting.
\<close>

definition after :: "config \<Rightarrow> world \<Rightarrow> event \<Rightarrow> world" where
  "after k w e = (case step k w e of Some (Inr w') \<Rightarrow> w' | _ \<Rightarrow> w)"

definition play :: "config \<Rightarrow> world \<Rightarrow> event list \<Rightarrow> world" where
  "play k w es = foldl (after k) w es"

definition mountedWorld :: "config \<Rightarrow> (nat \<times> nat) list \<Rightarrow> world" where
  "mountedWorld k draws =
     (case mount k draws of
        Some (Inr w) \<Rightarrow> w
      | _ \<Rightarrow> \<lparr>boards = [], shown = 0, state = useState_initial, renders = [], timers = []\<rparr>)"

text \<open>
  \<open>run k A w es w'\<close>: the events \<open>es\<close>, each of them possible and allowed by \<open>A\<close>
  in the world it arrives in, lead from \<open>w\<close> to \<open>w'\<close>. \<open>noRestart\<close> allows every
  event but the face button. \<open>revealOnly\<close> allows the events that cannot call
  \<^verbatim>\<open>flagToggleSet\<close>: a timeout, and a press on a cell when the
  \<^verbatim>\<open>clickCount\<close> of the render on screen is 0.
\<close>

inductive run :: "config \<Rightarrow> (world \<Rightarrow> event \<Rightarrow> bool) \<Rightarrow> world \<Rightarrow> event list \<Rightarrow> world \<Rightarrow> bool"
  for k :: config and A :: "world \<Rightarrow> event \<Rightarrow> bool" where
  stop: "run k A w [] w"
| go: "A w e \<Longrightarrow> possible w e \<Longrightarrow> step k w e = Some (Inr w') \<Longrightarrow> run k A w' es w'' \<Longrightarrow>
       run k A w (e # es) w''"

fun noRestart :: "world \<Rightarrow> event \<Rightarrow> bool" where
  "noRestart w (FaceClick draws) = False"
| "noRestart w e = True"

fun revealOnly :: "world \<Rightarrow> event \<Rightarrow> bool" where
  "revealOnly w (Click row col) = (clickCount (last (renders w)) = 0)"
| "revealOnly w Timeout = True"
| "revealOnly w e = False"

text \<open>
  \<open>quiet w\<close>: every pending timer was set by a render of the board that is in
  the state; no press on the board of an earlier game is still waiting.
\<close>

definition quiet :: "world \<Rightarrow> bool" where
  "quiet w = list_all (\<lambda>t. r_board (renders w ! fst t) = shown w) (timers w)"

section \<open>Notions for the proofs\<close>

abbreviation unrevealed :: "grid \<Rightarrow> nat" where
  "unrevealed b \<equiv> countCells (\<lambda>c. \<not> isRevealed c) b"

text \<open>
  One iteration of the inner loop of \<^verbatim>\<open>surroundingCells\<close>: the position
  it pushes, if any.
\<close>

definition candidate :: "config \<Rightarrow> nat \<Rightarrow> nat \<Rightarrow> int \<Rightarrow> int \<Rightarrow> (nat \<times> nat) list" where
  "candidate k row col i j =
     (let newRow = int row + i; newCol = int col + j
      in if newRow \<ge> 0 \<and> newRow < int (GRID_SIZE_row k) \<and>
            newCol \<ge> 0 \<and> newCol < int (GRID_SIZE_col k)
         then [(nat newRow, nat newCol)] else [])"

text \<open>\<open>sameBut Q b b'\<close>: the grids have one shape, and \<open>Q\<close> relates their cells place by place.\<close>

definition sameBut :: "(CellProps \<Rightarrow> CellProps \<Rightarrow> bool) \<Rightarrow> grid \<Rightarrow> grid \<Rightarrow> bool" where
  "sameBut Q b b' \<longleftrightarrow>
     length b' = length b \<and> (\<forall>r<length b. length (b' ! r) = length (b ! r)) \<and>
     (\<forall>p. inb b p \<longrightarrow> Q (cell b p) (cell b' p))"

text \<open>
  What one operation may change in a cell: \<^verbatim>\<open>setMines\<close> only \<open>isMine\<close>;
  the pass of \<^verbatim>\<open>initializeBoard\<close> neither \<open>isMine\<close> nor \<open>isRevealed\<close> nor
  \<open>isFlagged\<close>; the handlers none of \<open>isMine\<close>, \<open>adjacentMines\<close>,
  \<open>surroundingCells\<close>; the flood fill only \<open>isRevealed\<close>, from false to true, and
  only in cells that are neither mines nor flagged.
\<close>

definition mineOnly :: "CellProps \<Rightarrow> CellProps \<Rightarrow> bool" where
  "mineOnly x y \<longleftrightarrow> y = x\<lparr>isMine := isMine y\<rparr>"

definition initOnly :: "CellProps \<Rightarrow> CellProps \<Rightarrow> bool" where
  "initOnly x y \<longleftrightarrow>
     isMine y = isMine x \<and> isRevealed y = isRevealed x \<and> isFlagged y = isFlagged x"

definition keeps :: "CellProps \<Rightarrow> CellProps \<Rightarrow> bool" where
  "keeps x y \<longleftrightarrow>
     isMine y = isMine x \<and> adjacentMines y = adjacentMines x \<and>
     surroundingCells y = surroundingCells x"

definition floodStep :: "CellProps \<Rightarrow> CellProps \<Rightarrow> bool" where
  "floodStep x y \<longleftrightarrow>
     y = x\<lparr>isRevealed := isRevealed y\<rparr> \<and> (isRevealed x \<longrightarrow> isRevealed y) \<and>
     (isRevealed y \<longrightarrow> isRevealed x \<or> (\<not> isMine x \<and> \<not> isFlagged x))"

text \<open>
  The result of \<^verbatim>\<open>recursiveSurroundCells\<close> on the list \<open>xs\<close>. \<open>covered\<close>: every
  entry of the list that is neither flagged nor a mine is revealed afterwards.
  \<open>closure\<close>: whenever a cell without adjacent mines has become revealed, its
  own list is covered. \<open>opens\<close>: the cell is one that the fill reveals when it
  comes to it; \<open>reached b p q\<close>: a chain leads from \<open>p\<close> to \<open>q\<close>. \<open>counted\<close>: the counter has grown by the number of cells
  that have become revealed, and nothing but the board and the counter has
  changed.
\<close>

definition good :: "grid \<Rightarrow> nat \<times> nat \<Rightarrow> bool" where
  "good b p \<longleftrightarrow> inb b p \<and> \<not> isFlagged (cell b p) \<and> \<not> isMine (cell b p)"

definition opens :: "grid \<Rightarrow> nat \<times> nat \<Rightarrow> bool" where
  "opens b p \<longleftrightarrow> good b p \<and> \<not> isRevealed (cell b p)"

definition reached :: "grid \<Rightarrow> nat \<times> nat \<Rightarrow> nat \<times> nat \<Rightarrow> bool" where
  "reached b p q \<longleftrightarrow> (\<exists>qs. fillChain b p qs \<and> q = last (p # qs))"

definition covered :: "grid \<Rightarrow> (nat \<times> nat) list \<Rightarrow> grid \<Rightarrow> bool" where
  "covered b xs b' \<longleftrightarrow> (\<forall>x\<in>set xs. inb b x \<and> (good b x \<longrightarrow> isRevealed (cell b' x)))"

definition closure :: "grid \<Rightarrow> grid \<Rightarrow> bool" where
  "closure b b' \<longleftrightarrow>
     (\<forall>z. inb b z \<and> \<not> isRevealed (cell b z) \<and> isRevealed (cell b' z) \<and>
          adjacentMines (cell b z) = 0 \<longrightarrow> covered b (surroundingCells (cell b z)) b')"

definition counted :: "GameBoard \<Rightarrow> GameBoard \<Rightarrow> bool" where
  "counted s s' \<longleftrightarrow>
     s' = s\<lparr>board := board s', revealedCount := revealedCount s'\<rparr> \<and>
     revealedCount s' + int (countCells isRevealed (board s)) =
       revealedCount s + int (countCells isRevealed (board s'))"

definition floodPost :: "GameBoard \<Rightarrow> (nat \<times> nat) list \<Rightarrow> GameBoard \<Rightarrow> bool" where
  "floodPost s xs s' \<longleftrightarrow>
     sameBut floodStep (board s) (board s') \<and> counted s s' \<and>
     covered (board s) xs (board s') \<and> closure (board s) (board s')"

definition nbrsClosed :: "grid \<Rightarrow> bool" where
  "nbrsClosed b \<longleftrightarrow> (\<forall>p. inb b p \<longrightarrow> (\<forall>q\<in>set (surroundingCells (cell b p)). inb b q))"

text \<open>
  \<open>static\<close>: the board has the size of the constants, every cell holds the list
  that \<^verbatim>\<open>surroundingCells\<close> computes for its position, and there are
  \<open>NUM_MINES\<close> mines. \<open>wellFormed\<close>, the invariant of the worlds: every board
  is static; the state holds the cells of the board \<open>shown\<close>; the render on
  screen has read that board and the counter of the state; every render refers
  to a board and every timer to a render and to a position of the grid.
\<close>

definition static :: "config \<Rightarrow> grid \<Rightarrow> bool" where
  "static k b \<longleftrightarrow>
     hasSize (GRID_SIZE_row k) (GRID_SIZE_col k) b \<and>
     (\<forall>p. inb b p \<longrightarrow> surroundingCells (cell b p) = surroundingCells_of k (fst p) (snd p)) \<and>
     countCells isMine b = NUM_MINES k"

definition wellFormed :: "config \<Rightarrow> world \<Rightarrow> bool" where
  "wellFormed k w \<longleftrightarrow>
     (\<forall>b\<in>set (boards w). static k b) \<and>
     shown w < length (boards w) \<and> board (state w) = boards w ! shown w \<and>
     renders w \<noteq> [] \<and>
     r_board (last (renders w)) = shown w \<and>
     r_revealedCount (last (renders w)) = revealedCount (state w) \<and>
     (\<forall>r\<in>set (renders w). r_board r < length (boards w)) \<and>
     (\<forall>t\<in>set (timers w).
        fst t < length (renders w) \<and> fst (snd t) < GRID_SIZE_row k \<and> snd (snd t) < GRID_SIZE_col k)"

text \<open>
  The first writes of \<^verbatim>\<open>revealedCell\<close>, and the flag flip of
  \<^verbatim>\<open>flagToggleSet\<close>.
\<close>

definition revealOne :: "GameBoard \<Rightarrow> nat \<times> nat \<Rightarrow> GameBoard" where
  "revealOne s p =
     s\<lparr>board := setCell (board s) (fst p) (snd p) ((cell (board s) p)\<lparr>isRevealed := True\<rparr>),
       revealedCount := revealedCount s + 1,
       isGameStart := True\<rparr>"

definition flagOne :: "GameBoard \<Rightarrow> nat \<times> nat \<Rightarrow> GameBoard" where
  "flagOne s p =
     (if isFlagged (cell (board s) p)
      then s\<lparr>flagCount := flagCount s - 1,
             board := setCell (board s) (fst p) (snd p) ((cell (board s) p)\<lparr>isFlagged := False\<rparr>)\<rparr>
      else s\<lparr>flagCount := flagCount s + 1,
             board := setCell (board s) (fst p) (snd p) ((cell (board s) p)\<lparr>isFlagged := True\<rparr>)\<rparr>)"

text \<open>
  \<open>onGrid k e\<close>: the event presses a cell of the grid of the constants, or it is
  a timeout, or it is a press on the face button with draws on which the
  generation returns.
\<close>

fun onGrid :: "config \<Rightarrow> event \<Rightarrow> bool" where
  "onGrid k (Click row col) = (row < GRID_SIZE_row k \<and> col < GRID_SIZE_col k)"
| "onGrid k (RightClick row col) = (row < GRID_SIZE_row k \<and> col < GRID_SIZE_col k)"
| "onGrid k Timeout = True"
| "onGrid k (FaceClick draws) = (inRange k draws \<and> NUM_MINES k \<le> card (set draws))"


section \<open>Example boards\<close>

text \<open>
  Small grids, and games on the shipped 8 by 8 grid with 10 mines. The mines are
  where the draws put them.
\<close>

definition small_config :: config where
  "small_config = \<lparr>GRID_SIZE_row = 2, GRID_SIZE_col = 3, NUM_MINES = 2\<rparr>"

definition small_board :: grid where
  "small_board = boardOf (initializeBoard small_config [(0, 0), (0, 0), (1, 2)])"

definition crowded_config :: config where
  "crowded_config = \<lparr>GRID_SIZE_row = 1, GRID_SIZE_col = 1, NUM_MINES = 2\<rparr>"

definition tiny_config :: config where
  "tiny_config = \<lparr>GRID_SIZE_row = 1, GRID_SIZE_col = 2, NUM_MINES = 1\<rparr>"

definition tiny_state :: GameBoard where
  "tiny_state = mounted tiny_config [(0, 1)]"

definition row_config :: config where
  "row_config = \<lparr>GRID_SIZE_row = 1, GRID_SIZE_col = 4, NUM_MINES = 1\<rparr>"

text \<open>
  \<open>draws_bottom\<close>: the bottom row and the two cells above its ends are mines. One click
  on (0, 0) opens all the other cells.
\<close>

definition draws_bottom :: "(nat \<times> nat) list" where
  "draws_bottom = [(7,0),(7,1),(7,2),(7,3),(7,4),(7,5),(7,6),(7,7),(6,0),(6,7)]"

definition bottom0 :: GameBoard where "bottom0 = mounted constants draws_bottom"

definition bottom1 :: GameBoard where "bottom1 = stateOf (revealedCell constants bottom0 0 0)"

definition bottom2 :: GameBoard where "bottom2 = stateOf (revealedCell constants bottom1 7 0)"

text \<open>
  The worlds of the example games; each is the world after one more event.
  \<open>tiny_world\<close> and \<open>row_world\<close> are small grids right after mounting. On the
  tiny grid the mine (0, 1) is pressed (\<open>tiny_pending\<close>) and its timer runs
  (\<open>tiny_lost\<close>), and three more events follow (\<open>tiny_lost_later\<close>); or the
  cell (0, 0) is pressed (\<open>tiny_safe_pending\<close>) and its timer runs (\<open>tiny_won\<close>),
  and then the flagged mine is pressed (\<open>tiny_won_pressed\<close>) and that timer runs
  (\<open>tiny_won_later\<close>).
\<close>

definition tiny_world :: world where
  "tiny_world = mountedWorld tiny_config [(0, 1)]"

definition tiny_pending :: world where
  "tiny_pending = after tiny_config tiny_world (Click 0 1)"

definition tiny_lost :: world where
  "tiny_lost = after tiny_config tiny_pending Timeout"

definition tiny_lost_later :: world where
  "tiny_lost_later = play tiny_config tiny_lost [Click 0 0, Timeout, RightClick 0 1]"

definition tiny_safe_pending :: world where
  "tiny_safe_pending = after tiny_config tiny_world (Click 0 0)"

definition tiny_won :: world where
  "tiny_won = after tiny_config tiny_safe_pending Timeout"

definition tiny_won_pressed :: world where
  "tiny_won_pressed = after tiny_config tiny_won (Click 0 1)"

definition tiny_won_later :: world where
  "tiny_won_later = after tiny_config tiny_won_pressed Timeout"

definition row_world :: world where
  "row_world = mountedWorld row_config [(0, 3)]"

text \<open>
  \<open>draws_corridor\<close>: the third row is mined, so the top row has no adjacent mines and the
  second row is numbered. The game flags (0, 0) and (0, 2), reveals (0, 1),
  takes both flags away (\<open>corridor6\<close>) and reveals (0, 0) (\<open>corridor8\<close>). In the
  other game (0, 1) is flagged right after mounting (\<open>flagged1\<close>) and (0, 0) is
  revealed (\<open>flagged3\<close>).
\<close>

definition draws_corridor :: "(nat \<times> nat) list" where
  "draws_corridor = [(2,0),(2,1),(2,2),(2,3),(2,4),(2,5),(2,6),(2,7),(7,0),(7,7)]"

definition corridor0 :: world where "corridor0 = mountedWorld constants draws_corridor"

definition corridor1 :: world where "corridor1 = after constants corridor0 (RightClick 0 0)"

definition corridor2 :: world where "corridor2 = after constants corridor1 (RightClick 0 2)"

definition corridor3 :: world where "corridor3 = after constants corridor2 (Click 0 1)"

definition corridor4 :: world where "corridor4 = after constants corridor3 Timeout"

definition corridor5 :: world where "corridor5 = after constants corridor4 (RightClick 0 0)"

definition corridor6 :: world where "corridor6 = after constants corridor5 (RightClick 0 2)"

definition corridor7 :: world where "corridor7 = after constants corridor6 (Click 0 0)"

definition corridor8 :: world where "corridor8 = after constants corridor7 Timeout"

definition flagged1 :: world where "flagged1 = after constants corridor0 (RightClick 0 1)"

definition flagged2 :: world where "flagged2 = after constants flagged1 (Click 0 0)"

definition flagged3 :: world where "flagged3 = after constants flagged2 Timeout"

text \<open>
  \<open>draws_corner\<close>: three mines wall in the corner (0, 0), seven sit in the middle. The
  game reveals (7, 7), which opens 53 cells, and then (0, 0), which wins
  (\<open>corner4\<close>); a secondary click on the mine (0, 1) follows (\<open>corner5\<close>).
\<close>

definition draws_corner :: "(nat \<times> nat) list" where
  "draws_corner = [(0,1),(1,0),(1,1),(3,3),(3,4),(3,5),(4,3),(4,4),(4,5),(5,4)]"

definition corner0 :: world where "corner0 = mountedWorld constants draws_corner"

definition corner1 :: world where "corner1 = after constants corner0 (Click 7 7)"

definition corner2 :: world where "corner2 = after constants corner1 Timeout"

definition corner3 :: world where "corner3 = after constants corner2 (Click 0 0)"

definition corner4 :: world where "corner4 = after constants corner3 Timeout"

definition corner5 :: world where "corner5 = after constants corner4 (RightClick 0 1)"

text \<open>
  A restart while a press is waiting. On the board of \<open>draws_corner\<close> the mine (0, 1)
  is flagged and (0, 0) is pressed; the face button makes the board of
  \<open>draws_bottom\<close> before the timer runs (\<open>restart3\<close>). Then the timer runs
  (\<open>restart4\<close>), and the flag of (0, 1) is toggled (\<open>restart5\<close>).
\<close>

definition restart1 :: world where "restart1 = after constants corner0 (RightClick 0 1)"

definition restart2 :: world where "restart2 = after constants restart1 (Click 0 0)"

definition restart3 :: world where "restart3 = after constants restart2 (FaceClick draws_bottom)"

definition restart4 :: world where "restart4 = after constants restart3 Timeout"

definition restart5 :: world where "restart5 = after constants restart4 (RightClick 0 1)"

text \<open>
  A loss while a press on the next board is waiting. On the board of \<open>draws_corner\<close>
  the mine (0, 1) is pressed; the face button makes the board of \<open>draws_bottom\<close>,
  and its cell (0, 0) is pressed, before the first timer runs. The first timer
  loses the game (\<open>overrun4\<close>); then the second timer runs (\<open>overrun5\<close>).
\<close>

definition overrun1 :: world where "overrun1 = after constants corner0 (Click 0 1)"

definition overrun2 :: world where "overrun2 = after constants overrun1 (FaceClick draws_bottom)"

definition overrun3 :: world where "overrun3 = after constants overrun2 (Click 0 0)"

definition overrun4 :: world where "overrun4 = after constants overrun3 Timeout"

definition overrun5 :: world where "overrun5 = after constants overrun4 Timeout"

text \<open>
  \<open>draws_pockets\<close>: mines wall in the two upper corners, four sit in the bottom
  row. Revealing (7, 7) opens the 52 cells outside the two corners (\<open>pockets2\<close>).
  Then (0, 0) is pressed, the mine (0, 1) is flagged by a secondary click, and
  (0, 7) is pressed, all before the first of the two timers runs (\<open>pockets5\<close>).
  The first timer reveals (0, 0) (\<open>pockets6\<close>), the second (0, 7) (\<open>pockets7\<close>).
\<close>

definition draws_pockets :: "(nat \<times> nat) list" where
  "draws_pockets = [(0,1),(1,0),(1,1),(0,6),(1,6),(1,7),(7,2),(7,3),(7,4),(7,5)]"

definition pockets0 :: world where "pockets0 = mountedWorld constants draws_pockets"

definition pockets1 :: world where "pockets1 = after constants pockets0 (Click 7 7)"

definition pockets2 :: world where "pockets2 = after constants pockets1 Timeout"

definition pockets3 :: world where "pockets3 = after constants pockets2 (Click 0 0)"

definition pockets4 :: world where "pockets4 = after constants pockets3 (RightClick 0 1)"

definition pockets5 :: world where "pockets5 = after constants pockets4 (Click 0 7)"

definition pockets6 :: world where "pockets6 = after constants pockets5 Timeout"

definition pockets7 :: world where "pockets7 = after constants pockets6 Timeout"

section \<open>Termination of the flood fill\<close>

lemma filter_update_count:
  assumes "c < length xs"
  shows "length (filter P (xs[c := v])) + (if P (xs ! c) then 1 else 0)
        = length (filter P xs) + (if P v then 1 else 0)"
proof -
  have a: "xs = take c xs @ xs ! c # drop (Suc c) xs"
    using assms by (simp add: id_take_nth_drop)
  have b: "xs[c := v] = take c xs @ v # drop (Suc c) xs"
    using assms by (simp add: upd_conv_take_nth_drop)
  have "length (filter P xs) =
        length (filter P (take c xs)) + (if P (xs ! c) then 1 else 0) +
        length (filter P (drop (Suc c) xs))"
    by (subst a) simp
  moreover have "length (filter P (xs[c := v])) =
        length (filter P (take c xs)) + (if P v then 1 else 0) +
        length (filter P (drop (Suc c) xs))"
    by (subst b) simp
  ultimately show ?thesis by simp
qed

lemma countCells_setCell:
  assumes "r < length b" "c < length (b ! r)"
  shows "countCells P (setCell b r c v) + (if P (b ! r ! c) then 1 else 0)
         = countCells P b + (if P v then 1 else 0)"
proof -
  have a: "b = take r b @ b ! r # drop (Suc r) b"
    using assms by (simp add: id_take_nth_drop)
  have b: "setCell b r c v = take r b @ (b ! r)[c := v] # drop (Suc r) b"
    using assms by (simp add: setCell_def upd_conv_take_nth_drop)
  have "countCells P b =
        countCells P (take r b) + length (filter P (b ! r)) + countCells P (drop (Suc r) b)"
    unfolding countCells_def by (subst a) simp
  moreover have "countCells P (setCell b r c v) =
        countCells P (take r b) + length (filter P ((b ! r)[c := v])) +
        countCells P (drop (Suc r) b)"
    unfolding countCells_def by (subst b) simp
  ultimately show ?thesis
    using filter_update_count[OF assms(2), of P v] by simp
qed

lemma cellAt_Inr:
  "cellAt b r c = Inr x \<longleftrightarrow> r < length b \<and> c < length (b ! r) \<and> x = b ! r ! c"
  by (auto simp: cellAt_def)

lemma recursiveSurroundCells_unrevealed_dom:
  "recursiveSurroundCells_dom (s, xs) \<Longrightarrow> recursiveSurroundCells s xs = Inr s' \<Longrightarrow>
   unrevealed (board s') \<le> unrevealed (board s)"
proof (induction s xs arbitrary: s' rule: recursiveSurroundCells.pinduct)
  case (1 s)
  then show ?case by (simp add: recursiveSurroundCells.psimps)
next
  case (2 s cell surrounding)
  from "2.prems" "2.hyps" obtain x where x: "cellAt (board s) (fst cell) (snd cell) = Inr x"
    by (auto simp: recursiveSurroundCells.psimps split: sum.splits)
  show ?case
  proof (cases "\<not> isFlagged x \<and> \<not> isMine x \<and> \<not> isRevealed x")
    case False
    with x "2.prems" "2.hyps" have "recursiveSurroundCells s surrounding = Inr s'"
      by (simp add: recursiveSurroundCells.psimps)
    with "2.IH"(3)[OF x False] show ?thesis .
  next
    case True
    define s1 where
      "s1 = s\<lparr>board := setCell (board s) (fst cell) (snd cell) (x\<lparr>isRevealed := True\<rparr>),
               revealedCount := revealedCount s + 1\<rparr>"
    from x have inb: "fst cell < length (board s)" "snd cell < length (board s ! fst cell)"
      and xeq: "x = board s ! fst cell ! snd cell"
      by (simp_all add: cellAt_Inr)
    have s1le: "unrevealed (board s1) \<le> unrevealed (board s)"
      using countCells_setCell[OF inb, of "\<lambda>c. \<not> isRevealed c" "x\<lparr>isRevealed := True\<rparr>"] True xeq
      by (simp add: s1_def)
    from x True "2.prems" "2.hyps" obtain s2 where
      s2: "(if adjacentMines x = 0 then recursiveSurroundCells s1 (surroundingCells x)
            else Inr s1) = Inr s2"
      and rest: "recursiveSurroundCells s2 surrounding = Inr s'"
      by (auto simp: recursiveSurroundCells.psimps s1_def Let_def split: sum.splits if_splits)
    have "unrevealed (board s2) \<le> unrevealed (board s1)"
    proof (cases "adjacentMines x = 0")
      case z: True
      with s2 have "recursiveSurroundCells s1 (surroundingCells x) = Inr s2" by simp
      from "2.IH"(1)[OF x True s1_def z this] show ?thesis .
    next
      case False
      with s2 show ?thesis by simp
    qed
    moreover have "unrevealed (board s') \<le> unrevealed (board s2)"
      using "2.IH"(2)[OF x True s1_def s2 rest] .
    ultimately show ?thesis using s1le by linarith
  qed
qed

termination recursiveSurroundCells
proof (relation "measures [\<lambda>(s, xs). unrevealed (board s), \<lambda>(s, xs). length xs]", goal_cases)
  case 1
  then show ?case by simp
next
  case (2 s cell surrounding x s1)
  then have "fst cell < length (board s)" "snd cell < length (board s ! fst cell)"
    "x = board s ! fst cell ! snd cell"
    by (simp_all add: cellAt_Inr)
  from countCells_setCell[OF this(1,2), of "\<lambda>c. \<not> isRevealed c" "x\<lparr>isRevealed := True\<rparr>"]
    this(3) 2
  show ?case by simp
next
  case (3 s cell surrounding x s1 s2)
  then have inb: "fst cell < length (board s)" "snd cell < length (board s ! fst cell)"
    "x = board s ! fst cell ! snd cell"
    by (simp_all add: cellAt_Inr)
  have lt: "unrevealed (board s1) < unrevealed (board s)"
    using countCells_setCell[OF inb(1,2), of "\<lambda>c. \<not> isRevealed c" "x\<lparr>isRevealed := True\<rparr>"]
      inb(3) 3
    by simp
  have "unrevealed (board s2) \<le> unrevealed (board s1)"
  proof (cases "adjacentMines x = 0")
    case True
    with 3 show ?thesis
      using recursiveSurroundCells_unrevealed_dom[of s1 "surroundingCells x" s2] by simp
  next
    case False
    with 3 show ?thesis by simp
  qed
  with lt show ?case by simp
next
  case (4 s cell surrounding x)
  then show ?case by simp
qed

section \<open>Cells of a grid by position\<close>

lemma length_setCell [simp]: "length (setCell b r c v) = length b"
  by (simp add: setCell_def)

lemma length_setCell_row [simp]: "length (setCell b r c v ! r') = length (b ! r')"
  by (cases "r < length b"; cases "r' = r") (simp_all add: setCell_def list_update_beyond)

lemma inb_setCell [simp]: "inb (setCell b r c v) p = inb b p"
  by (simp add: inb_def)

lemma cell_setCell:
  "inb b p \<Longrightarrow> cell (setCell b r c v) p = (if p = (r, c) then v else cell b p)"
  by (cases p; cases "fst p = r") (auto simp: inb_def cell_def setCell_def)

lemma inb_revealAll [simp]: "inb (revealAll b) p = inb b p"
  by (auto simp: inb_def revealAll_def)

lemma cell_revealAll: "inb b p \<Longrightarrow> cell (revealAll b) p = (cell b p)\<lparr>isRevealed := True\<rparr>"
  by (simp add: inb_def cell_def revealAll_def)

lemma inb_map_map [simp]: "inb (map (map f) b) p = inb b p"
  by (auto simp: inb_def)

lemma cell_map_map: "inb b p \<Longrightarrow> cell (map (map f) b) p = f (cell b p)"
  by (simp add: inb_def cell_def)

lemma cellAt_inb: "inb b (r, c) \<Longrightarrow> cellAt b r c = Inr (cell b (r, c))"
  by (simp add: inb_def cell_def cellAt_def)

section \<open>The list of surrounding cells\<close>

lemma concat_map_if: "concat (map (\<lambda>x. if P x then [f x] else []) xs) = map f (filter P xs)"
  by (induction xs) auto

lemma surroundingCells_of_alt:
  "surroundingCells_of k row col =
     map (\<lambda>(i, j). (nat (int row + i), nat (int col + j)))
       (filter (\<lambda>(i, j). int row + i \<ge> 0 \<and> int row + i < int (GRID_SIZE_row k) \<and>
                         int col + j \<ge> 0 \<and> int col + j < int (GRID_SIZE_col k))
          (List.product offsets offsets))"
proof -
  have prod: "concat (map (\<lambda>i. concat (map (g i) js)) is) =
              concat (map (\<lambda>(i, j). g i j) (List.product is js))"
    for g :: "int \<Rightarrow> int \<Rightarrow> (nat \<times> nat) list" and "is" js
    by (induction "is") (simp_all add: comp_def)
  show ?thesis
    unfolding surroundingCells_of_def Let_def prod
    by (simp add: concat_map_if[symmetric] case_prod_unfold)
qed

lemma distinct_surroundingCells_of: "distinct (surroundingCells_of k row col)"
proof -
  have d: "distinct (List.product offsets offsets)"
    by (simp add: distinct_product offsets_def)
  have "inj_on (\<lambda>(i, j). (nat (int row + i), nat (int col + j)))
          {(i, j). int row + i \<ge> 0 \<and> int col + j \<ge> 0}"
    by (auto simp: inj_on_def)
  then have "inj_on (\<lambda>(i, j). (nat (int row + i), nat (int col + j)))
          (set (filter (\<lambda>(i, j). int row + i \<ge> 0 \<and> int row + i < int (GRID_SIZE_row k) \<and>
                         int col + j \<ge> 0 \<and> int col + j < int (GRID_SIZE_col k))
          (List.product offsets offsets)))"
    by (rule inj_on_subset) auto
  with d show ?thesis
    unfolding surroundingCells_of_alt by (simp add: distinct_map)
qed

lemma length_surroundingCells_of: "length (surroundingCells_of k row col) \<le> 9"
proof -
  have "length (surroundingCells_of k row col) \<le> length (List.product offsets offsets)"
    unfolding surroundingCells_of_alt length_map by (rule length_filter_le)
  then show ?thesis by (simp add: offsets_def)
qed

lemma set_surroundingCells_of:
  "set (surroundingCells_of k row col) =
     {(r, c). r < GRID_SIZE_row k \<and> c < GRID_SIZE_col k \<and>
              r \<le> row + 1 \<and> row \<le> r + 1 \<and> c \<le> col + 1 \<and> col \<le> c + 1}"
  (is "?L = ?R")
proof (rule set_eqI)
  fix p :: "nat \<times> nat"
  obtain r c where p: "p = (r, c)" by (cases p)
  have "p \<in> ?L \<longleftrightarrow> (\<exists>i\<in>{-1, 0, 1}. \<exists>j\<in>{-1, 0, 1}.
          int row + i \<ge> 0 \<and> int row + i < int (GRID_SIZE_row k) \<and>
          int col + j \<ge> 0 \<and> int col + j < int (GRID_SIZE_col k) \<and>
          r = nat (int row + i) \<and> c = nat (int col + j))"
    unfolding surroundingCells_of_alt p by (auto simp: offsets_def)
  also have "\<dots> \<longleftrightarrow> p \<in> ?R"
  proof
    assume "p \<in> ?R"
    then have b: "r < GRID_SIZE_row k" "c < GRID_SIZE_col k" "r \<le> row + 1" "row \<le> r + 1"
      "c \<le> col + 1" "col \<le> c + 1"
      by (simp_all add: p)
    define i j where "i = int r - int row" and "j = int c - int col"
    have "i \<in> {-1, 0, 1}" "j \<in> {-1, 0, 1}" using b by (auto simp: i_def j_def)
    moreover have "int row + i \<ge> 0 \<and> int row + i < int (GRID_SIZE_row k) \<and>
          int col + j \<ge> 0 \<and> int col + j < int (GRID_SIZE_col k) \<and>
          r = nat (int row + i) \<and> c = nat (int col + j)"
      using b by (simp add: i_def j_def)
    ultimately show "\<exists>i\<in>{-1, 0, 1}. \<exists>j\<in>{-1, 0, 1}.
          int row + i \<ge> 0 \<and> int row + i < int (GRID_SIZE_row k) \<and>
          int col + j \<ge> 0 \<and> int col + j < int (GRID_SIZE_col k) \<and>
          r = nat (int row + i) \<and> c = nat (int col + j)"
      by blast
  next
    assume "\<exists>i\<in>{-1, 0, 1}. \<exists>j\<in>{-1, 0, 1}.
          int row + i \<ge> 0 \<and> int row + i < int (GRID_SIZE_row k) \<and>
          int col + j \<ge> 0 \<and> int col + j < int (GRID_SIZE_col k) \<and>
          r = nat (int row + i) \<and> c = nat (int col + j)"
    then obtain i j where "i \<in> {-1, 0, 1}" "j \<in> {-1, 0, 1}"
      "int row + i \<ge> 0" "int row + i < int (GRID_SIZE_row k)"
      "int col + j \<ge> 0" "int col + j < int (GRID_SIZE_col k)"
      "r = nat (int row + i)" "c = nat (int col + j)"
      by blast
    then show "p \<in> ?R" unfolding p by auto
  qed
  finally show "p \<in> ?L \<longleftrightarrow> p \<in> ?R" .
qed

section \<open>The count of adjacent mines\<close>

lemma hasSize_inb: "hasSize R C b \<Longrightarrow> inb b p \<longleftrightarrow> fst p < R \<and> snd p < C"
  by (auto simp: hasSize_def inb_def)

lemma hasSize_setCell [simp]: "hasSize R C (setCell b r c v) = hasSize R C b"
  by (simp add: hasSize_def)

lemma adjacentMines_body_step:
  assumes "hasSize (GRID_SIZE_row k) (GRID_SIZE_col k) b"
  shows "adjacentMines_body k row col b i j (Inr n) =
         Inr (n + mineCount b (candidate k row col i j))"
proof (cases "int row + i \<ge> 0 \<and> int row + i < int (GRID_SIZE_row k) \<and>
              int col + j \<ge> 0 \<and> int col + j < int (GRID_SIZE_col k)")
  case True
  then have "inb b (nat (int row + i), nat (int col + j))"
    using assms by (auto simp: hasSize_inb)
  then show ?thesis
    using True by (simp add: adjacentMines_body_def candidate_def cellAt_inb mineCount_def Let_def)
next
  case False
  then show ?thesis
    by (auto simp: adjacentMines_body_def candidate_def mineCount_def Let_def)
qed

lemma mineCount_append [simp]: "mineCount b (xs @ ys) = mineCount b xs + mineCount b ys"
  by (simp add: mineCount_def)

lemma mineCount_Nil [simp]: "mineCount b [] = 0"
  by (simp add: mineCount_def)

lemma adjacentMines_inner:
  assumes "hasSize (GRID_SIZE_row k) (GRID_SIZE_col k) b"
  shows "fold (adjacentMines_body k row col b i) js (Inr n) =
         Inr (n + mineCount b (concat (map (candidate k row col i) js)))"
  by (induction js arbitrary: n) (simp_all add: adjacentMines_body_step[OF assms])

lemma adjacentMines_outer:
  assumes "hasSize (GRID_SIZE_row k) (GRID_SIZE_col k) b"
  shows "fold (\<lambda>i. fold (adjacentMines_body k row col b i) js) is (Inr n) =
         Inr (n + mineCount b (concat (map (\<lambda>i. concat (map (candidate k row col i) js)) is)))"
  by (induction "is" arbitrary: n) (simp_all add: adjacentMines_inner[OF assms])

lemma surroundingCells_of_candidate:
  "surroundingCells_of k row col =
     concat (map (\<lambda>i. concat (map (candidate k row col i) offsets)) offsets)"
  unfolding surroundingCells_of_def candidate_def[abs_def] ..

lemma adjacentMines_of_mineCount:
  assumes "hasSize (GRID_SIZE_row k) (GRID_SIZE_col k) b"
  shows "adjacentMines_of k row col b = Inr (mineCount b (surroundingCells_of k row col))"
  unfolding adjacentMines_of_def surroundingCells_of_candidate
  by (simp add: adjacentMines_outer[OF assms])

section \<open>Grids of one shape\<close>

lemma sameBut_inb: "sameBut Q b b' \<Longrightarrow> inb b' p = inb b p"
  by (auto simp: sameBut_def inb_def)

lemma sameBut_hasSize: "sameBut Q b b' \<Longrightarrow> hasSize R C b' = hasSize R C b"
  by (auto simp: sameBut_def hasSize_def)

lemma sameBut_cell: "sameBut Q b b' \<Longrightarrow> inb b p \<Longrightarrow> Q (cell b p) (cell b' p)"
  by (cases p) (simp add: sameBut_def)

lemma sameBut_refl: "(\<And>x. Q x x) \<Longrightarrow> sameBut Q b b"
  by (simp add: sameBut_def)

lemma sameBut_trans:
  assumes "sameBut Q b b'" "sameBut Q b' b''" "\<And>x y z. Q x y \<Longrightarrow> Q y z \<Longrightarrow> Q x z"
  shows "sameBut Q b b''"
proof -
  have "inb b' p = inb b p" for p using assms(1) by (rule sameBut_inb)
  have q: "Q (cell b p) (cell b'' p)" if "inb b p" for p
  proof -
    have "Q (cell b p) (cell b' p)" using assms(1) that by (rule sameBut_cell)
    moreover have "Q (cell b' p) (cell b'' p)"
      using assms(2) that sameBut_inb[OF assms(1), of p] by (simp add: sameBut_cell)
    ultimately show ?thesis by (rule assms(3))
  qed
  show ?thesis
    using assms(1,2) q by (simp add: sameBut_def)
qed

lemma sameBut_setCell:
  assumes "inb b (r, c)" "Q (cell b (r, c)) v" "\<And>x. Q x x"
  shows "sameBut Q b (setCell b r c v)"
  using assms by (auto simp: sameBut_def cell_setCell)

section \<open>Placing the mines\<close>

lemma setMines_loop_result:
  "setMines_loop n draws m b = Some (Inr b') \<Longrightarrow> m \<le> n \<Longrightarrow>
   countCells isMine b' = countCells isMine b + (n - m) \<and> sameBut mineOnly b b'"
proof (induction draws arbitrary: m b)
  case Nil
  then show ?case by (auto simp: mineOnly_def intro!: sameBut_refl split: if_splits)
next
  case (Cons d draws)
  obtain randomRow randomCol where d: "d = (randomRow, randomCol)" by (cases d)
  show ?case
  proof (cases "m < n")
    case False
    with Cons.prems show ?thesis by (auto simp: d mineOnly_def intro!: sameBut_refl)
  next
    case True
    with Cons.prems have ne: "b \<noteq> []" and ib: "inb b d"
      by (auto simp: d inb_def cellAt_def split: if_splits)
    show ?thesis
    proof (cases "isMine (cell b d)")
      case mine: True
      with Cons.prems True ne ib have "setMines_loop n draws m b = Some (Inr b')"
        by (simp add: d cellAt_inb)
      from Cons.IH[OF this Cons.prems(2)] show ?thesis .
    next
      case False
      let ?b1 = "setCell b randomRow randomCol ((cell b d)\<lparr>isMine := True\<rparr>)"
      from False Cons.prems True ne ib have "setMines_loop n draws (m + 1) ?b1 = Some (Inr b')"
        by (simp add: d cellAt_inb)
      from Cons.IH[OF this] True
      have 1: "countCells isMine b' = countCells isMine ?b1 + (n - (m + 1))"
        and 2: "sameBut mineOnly ?b1 b'" by simp_all
      have "countCells isMine ?b1 = countCells isMine b + 1"
        using countCells_setCell[of randomRow b randomCol isMine "(cell b d)\<lparr>isMine := True\<rparr>"] ib False
        by (simp add: d inb_def cell_def)
      with 1 True have c: "countCells isMine b' = countCells isMine b + (n - m)" by simp
      have "sameBut mineOnly b ?b1"
        using ib by (intro sameBut_setCell) (simp_all add: d mineOnly_def)
      from sameBut_trans[OF this 2] have "sameBut mineOnly b b'"
      proof -
        have "mineOnly x z" if "mineOnly x y" "mineOnly y z" for x y z
        proof -
          have "z = y\<lparr>isMine := isMine z\<rparr>" using that(2) by (simp add: mineOnly_def)
          also have "y = x\<lparr>isMine := isMine y\<rparr>" using that(1) by (simp add: mineOnly_def)
          finally show ?thesis by (simp add: mineOnly_def)
        qed
        then show ?thesis
          using \<open>sameBut mineOnly b ?b1\<close> 2 by (rule sameBut_trans[rotated 2])
      qed
      with c show ?thesis by simp
    qed
  qed
qed

lemma setMines_loop_no_throw:
  "\<forall>d\<in>set draws. inb b d \<Longrightarrow> setMines_loop n draws m b \<noteq> Some (Inl e)"
proof (induction draws arbitrary: m b)
  case Nil
  then show ?case by simp
next
  case (Cons d draws)
  obtain randomRow randomCol where d: "d = (randomRow, randomCol)" by (cases d)
  from Cons.prems have ib: "inb b d" and rest: "\<forall>d\<in>set draws. inb b d" by simp_all
  from ib have ne: "b \<noteq> []" by (auto simp: inb_def)
  let ?b1 = "setCell b randomRow randomCol ((cell b d)\<lparr>isMine := True\<rparr>)"
  have "setMines_loop n draws (m + 1) ?b1 \<noteq> Some (Inl e)"
    by (rule Cons.IH) (simp add: rest)
  moreover have "setMines_loop n draws m b \<noteq> Some (Inl e)"
    by (rule Cons.IH) (simp add: rest)
  ultimately show ?case
    using ib ne by (simp add: d cellAt_inb)
qed

lemma setMines_loop_returns:
  assumes "\<forall>d\<in>set draws. inb b d"
    and "n - m \<le> card {d \<in> set draws. \<not> isMine (cell b d)}"
  shows "\<exists>b'. setMines_loop n draws m b = Some (Inr b')"
  using assms
proof (induction draws arbitrary: m b)
  case Nil
  then show ?case by simp
next
  case (Cons d draws)
  obtain randomRow randomCol where d: "d = (randomRow, randomCol)" by (cases d)
  from Cons.prems have ib: "inb b d" and rest: "\<forall>d\<in>set draws. inb b d" by simp_all
  from ib have ne: "b \<noteq> []" by (auto simp: inb_def)
  show ?case
  proof (cases "m < n")
    case False
    then show ?thesis by (simp add: d)
  next
    case True
    show ?thesis
    proof (cases "isMine (cell b d)")
      case mine: True
      have "{d' \<in> set (d # draws). \<not> isMine (cell b d')} = {d' \<in> set draws. \<not> isMine (cell b d')}"
        using mine by auto
      with Cons.prems(2) have "n - m \<le> card {d' \<in> set draws. \<not> isMine (cell b d')}" by simp
      from Cons.IH[OF rest this] show ?thesis
        using True mine ib ne by (simp add: d cellAt_inb)
    next
      case False
      let ?b1 = "setCell b randomRow randomCol ((cell b d)\<lparr>isMine := True\<rparr>)"
      let ?A = "{d' \<in> set draws. \<not> isMine (cell ?b1 d')}"
      have eq: "{d' \<in> set (d # draws). \<not> isMine (cell b d')} = insert d ?A"
        using False rest by (auto simp: cell_setCell d split: if_splits)
      have "card (insert d ?A) \<le> card ?A + 1"
        by (simp add: card_insert_if)
      with Cons.prems(2) eq have "n - (m + 1) \<le> card ?A" by simp
      moreover have "\<forall>d\<in>set draws. inb ?b1 d" using rest by simp
      ultimately have "\<exists>b'. setMines_loop n draws (m + 1) ?b1 = Some (Inr b')"
        by (rule Cons.IH[rotated])
      then show ?thesis
        using True False ib ne by (simp add: d cellAt_inb)
    qed
  qed
qed

lemma countCells_le:
  assumes "hasSize R C b"
  shows "countCells P b \<le> R * C"
proof -
  have "map length b = map (\<lambda>_. C) b"
    using assms by (auto simp: hasSize_def in_set_conv_nth)
  then have "sum_list (map length b) = sum_list (map (\<lambda>_. C) b)"
    by (rule arg_cong)
  then have "length (concat b) = R * C"
    using assms by (simp add: length_concat sum_list_triv hasSize_def)
  moreover have "countCells P b \<le> length (concat b)"
    unfolding countCells_def by (rule length_filter_le)
  ultimately show ?thesis by simp
qed

lemma countCells_replicate:
  "countCells P (replicate R (replicate C x)) = (if P x then R * C else 0)"
  by (induction R) (simp_all add: countCells_def)

lemma hasSize_replicate: "hasSize R C (replicate R (replicate C x))"
  by (simp add: hasSize_def)

lemma cell_replicate: "fst p < R \<Longrightarrow> snd p < C \<Longrightarrow> cell (replicate R (replicate C x)) p = x"
  by (simp add: cell_def)

lemma countCells_cong:
  assumes "sameBut Q b b'" "\<And>x y. Q x y \<Longrightarrow> P y = P x"
  shows "countCells P b' = countCells P b"
proof -
  have c: "countCells P g = length (filter id (concat (map (map P) g)))" for g
    by (simp add: countCells_def map_concat[symmetric] filter_map comp_def)
  have "map (map P) b' = map (map P) b"
  proof (rule nth_equalityI)
    show "length (map (map P) b') = length (map (map P) b)"
      using assms(1) by (simp add: sameBut_def)
  next
    fix r assume "r < length (map (map P) b')"
    then have r: "r < length b" "r < length b'" using assms(1) by (simp_all add: sameBut_def)
    have "map P (b' ! r) = map P (b ! r)"
    proof (rule nth_equalityI)
      show "length (map P (b' ! r)) = length (map P (b ! r))"
        using assms(1) r by (simp add: sameBut_def)
    next
      fix c assume "c < length (map P (b' ! r))"
      then have c: "c < length (b ! r)" "c < length (b' ! r)"
        using assms(1) r by (simp_all add: sameBut_def)
      then have "inb b (r, c)" using r by (simp add: inb_def)
      from sameBut_cell[OF assms(1) this] have "P (cell b' (r, c)) = P (cell b (r, c))"
        by (rule assms(2))
      then show "map P (b' ! r) ! c = map P (b ! r) ! c"
        using c by (simp add: cell_def)
    qed
    then show "map (map P) b' ! r = map (map P) b ! r" using r by simp
  qed
  then show ?thesis by (simp add: c)
qed

section \<open>The pass over the mined board\<close>

lemma initOnly_trans: "initOnly x y \<Longrightarrow> initOnly y z \<Longrightarrow> initOnly x z"
  by (simp add: initOnly_def)

lemma mineCount_cong:
  assumes "sameBut initOnly b b'" "\<forall>p\<in>set ps. inb b p"
  shows "mineCount b' ps = mineCount b ps"
proof -
  have "isMine (cell b' p) = isMine (cell b p)" if "p \<in> set ps" for p
    using sameBut_cell[OF assms(1), of p] assms(2) that by (simp add: initOnly_def)
  then have "filter (\<lambda>p. isMine (cell b' p)) ps = filter (\<lambda>p. isMine (cell b p)) ps"
    by (intro filter_cong) simp_all
  then show ?thesis by (simp add: mineCount_def)
qed

lemma surroundingCells_of_inb:
  assumes "hasSize (GRID_SIZE_row k) (GRID_SIZE_col k) b" "p \<in> set (surroundingCells_of k row col)"
  shows "inb b p"
  using assms by (auto simp: set_surroundingCells_of hasSize_inb)

lemma initializeBoard_cell_step:
  assumes hs: "hasSize (GRID_SIZE_row k) (GRID_SIZE_col k) b" and ib: "inb b p"
  shows "\<exists>b'. initializeBoard_cell k p (Inr b) = Inr b' \<and> sameBut initOnly b b' \<and>
          surroundingCells (cell b' p) = surroundingCells_of k (fst p) (snd p) \<and>
          (\<not> isMine (cell b p) \<longrightarrow>
             adjacentMines (cell b' p) = mineCount b (surroundingCells_of k (fst p) (snd p))) \<and>
          (\<forall>q. inb b q \<longrightarrow> q \<noteq> p \<longrightarrow> cell b' q = cell b q)"
proof -
  obtain r c where p: "p = (r, c)" by (cases p)
  have c: "b ! r ! c = cell b p" by (simp add: cell_def p)
  show ?thesis
  proof (cases "isMine (cell b p)")
    case True
    have "sameBut initOnly b (setCell b r c ((cell b p)\<lparr>surroundingCells := surroundingCells_of k r c\<rparr>))"
      using ib by (intro sameBut_setCell) (simp_all add: p initOnly_def)
    then show ?thesis
      using True ib by (simp add: initializeBoard_cell_def p c cell_setCell)
  next
    case False
    let ?n = "mineCount b (surroundingCells_of k r c)"
    have "sameBut initOnly b (setCell b r c ((cell b p)\<lparr>adjacentMines := ?n,
              surroundingCells := surroundingCells_of k r c\<rparr>))"
      using ib by (intro sameBut_setCell) (simp_all add: p initOnly_def)
    then show ?thesis
      using False ib
      by (simp add: initializeBoard_cell_def p c cell_setCell adjacentMines_of_mineCount[OF hs])
  qed
qed

lemma initializeBoard_pass:
  assumes hs: "hasSize (GRID_SIZE_row k) (GRID_SIZE_col k) b" and ib: "\<forall>p\<in>set ps. inb b p"
  shows "\<exists>b'. fold (initializeBoard_cell k) ps (Inr b) = Inr b' \<and> sameBut initOnly b b' \<and>
          (\<forall>p\<in>set ps.
             surroundingCells (cell b' p) = surroundingCells_of k (fst p) (snd p) \<and>
             (\<not> isMine (cell b p) \<longrightarrow>
                adjacentMines (cell b' p) = mineCount b (surroundingCells_of k (fst p) (snd p))))"
  using ib
proof (induction ps rule: rev_induct)
  case Nil
  then show ?case by (simp add: sameBut_refl initOnly_def)
next
  case (snoc p ps)
  then obtain b1 where b1: "fold (initializeBoard_cell k) ps (Inr b) = Inr b1"
    and s1: "sameBut initOnly b b1"
    and f1: "\<forall>p\<in>set ps.
             surroundingCells (cell b1 p) = surroundingCells_of k (fst p) (snd p) \<and>
             (\<not> isMine (cell b p) \<longrightarrow>
                adjacentMines (cell b1 p) = mineCount b (surroundingCells_of k (fst p) (snd p)))"
    by auto
  have hs1: "hasSize (GRID_SIZE_row k) (GRID_SIZE_col k) b1"
    using hs sameBut_hasSize[OF s1] by simp
  have ib1: "inb b1 p" using snoc.prems sameBut_inb[OF s1] by simp
  from initializeBoard_cell_step[OF hs1 ib1] obtain b' where
    b': "initializeBoard_cell k p (Inr b1) = Inr b'" and s': "sameBut initOnly b1 b'"
    and sc: "surroundingCells (cell b' p) = surroundingCells_of k (fst p) (snd p)"
    and am: "\<not> isMine (cell b1 p) \<longrightarrow>
             adjacentMines (cell b' p) = mineCount b1 (surroundingCells_of k (fst p) (snd p))"
    and other: "\<forall>q. inb b1 q \<longrightarrow> q \<noteq> p \<longrightarrow> cell b' q = cell b1 q"
    by blast
  have m1: "isMine (cell b1 p) = isMine (cell b p)"
    using sameBut_cell[OF s1, of p] snoc.prems by (simp add: initOnly_def)
  have mc: "mineCount b1 (surroundingCells_of k (fst p) (snd p)) =
            mineCount b (surroundingCells_of k (fst p) (snd p))"
    by (rule mineCount_cong[OF s1]) (auto intro: surroundingCells_of_inb[OF hs])
  have "sameBut initOnly b b'" using s1 s' by (rule sameBut_trans) (rule initOnly_trans)
  moreover have "fold (initializeBoard_cell k) (ps @ [p]) (Inr b) = Inr b'"
    using b1 b' by simp
  moreover have "surroundingCells (cell b' q) = surroundingCells_of k (fst q) (snd q) \<and>
             (\<not> isMine (cell b q) \<longrightarrow>
                adjacentMines (cell b' q) = mineCount b (surroundingCells_of k (fst q) (snd q)))"
    if "q \<in> set (ps @ [p])" for q
  proof (cases "q = p")
    case True
    then show ?thesis using sc am m1 mc by simp
  next
    case False
    with that have q: "q \<in> set ps" by simp
    then have "inb b1 q" using snoc.prems sameBut_inb[OF s1] by simp
    with other False have "cell b' q = cell b1 q" by blast
    with f1 q show ?thesis by simp
  qed
  ultimately show ?case by blast
qed

lemma set_positions: "set (positions b) = {p. inb b p}"
  by (auto simp: positions_def inb_def)

lemma sameBut_mono: "sameBut Q b b' \<Longrightarrow> (\<And>x y. Q x y \<Longrightarrow> Q' x y) \<Longrightarrow> sameBut Q' b b'"
  by (simp add: sameBut_def)

lemma initializeBoard_Inr:
  assumes "initializeBoard k draws = Some (Inr b)"
  shows "hasSize (GRID_SIZE_row k) (GRID_SIZE_col k) b"
    and "countCells isMine b = NUM_MINES k"
    and "inb b p \<Longrightarrow> \<not> isRevealed (cell b p) \<and> \<not> isFlagged (cell b p)"
    and "inb b p \<Longrightarrow> surroundingCells (cell b p) = surroundingCells_of k (fst p) (snd p)"
    and "inb b p \<Longrightarrow> \<not> isMine (cell b p) \<Longrightarrow>
         adjacentMines (cell b p) = mineCount b (surroundingCells_of k (fst p) (snd p))"
proof -
  let ?R = "GRID_SIZE_row k" and ?C = "GRID_SIZE_col k"
  let ?new = "replicate ?R (replicate ?C initializeCell)"
  from assms obtain mined where
    m: "setMines_loop (NUM_MINES k) draws 0 ?new = Some (Inr mined)"
    and f: "fold (initializeBoard_cell k) (positions mined) (Inr mined) = Inr b"
    by (auto simp: initializeBoard_def setMines_def Let_def split: option.splits sum.splits)
  from setMines_loop_result[OF m] have
    cm: "countCells isMine mined = NUM_MINES k" and sm: "sameBut mineOnly ?new mined"
    by (simp_all add: countCells_replicate initializeCell_def)
  have hm: "hasSize ?R ?C mined"
    using sameBut_hasSize[OF sm] hasSize_replicate by simp
  have "\<forall>p\<in>set (positions mined). inb mined p" by (simp add: set_positions)
  from initializeBoard_pass[OF hm this] f have
    sb: "sameBut initOnly mined b"
    and fields: "\<forall>p\<in>set (positions mined).
             surroundingCells (cell b p) = surroundingCells_of k (fst p) (snd p) \<and>
             (\<not> isMine (cell mined p) \<longrightarrow>
                adjacentMines (cell b p) = mineCount mined (surroundingCells_of k (fst p) (snd p)))"
    by auto
  show hb: "hasSize ?R ?C b" using sameBut_hasSize[OF sb] hm by simp
  show "countCells isMine b = NUM_MINES k"
    using countCells_cong[OF sb, of isMine] cm by (simp add: initOnly_def)
  {
    assume ib: "inb b p"
    then have im: "inb mined p" using sameBut_inb[OF sb] by simp
    then have inew: "inb ?new p" using sameBut_inb[OF sm] by simp
    then have "fst p < ?R" "snd p < ?C"
      by (auto simp: inb_def)
    then have "cell ?new p = initializeCell"
      by (rule cell_replicate)
    with sameBut_cell[OF sm inew] have "\<not> isRevealed (cell mined p) \<and> \<not> isFlagged (cell mined p)"
      by (simp add: mineOnly_def initializeCell_def) (metis CellProps.select_convs(2,3) CellProps.surjective CellProps.update_convs(1))
    with sameBut_cell[OF sb im] show "\<not> isRevealed (cell b p) \<and> \<not> isFlagged (cell b p)"
      by (simp add: initOnly_def)
    have pm: "p \<in> set (positions mined)" using im by (simp add: set_positions)
    from fields pm show "surroundingCells (cell b p) = surroundingCells_of k (fst p) (snd p)"
      by blast
    assume nm: "\<not> isMine (cell b p)"
    with sameBut_cell[OF sb im] have "\<not> isMine (cell mined p)" by (simp add: initOnly_def)
    with fields pm have "adjacentMines (cell b p) = mineCount mined (surroundingCells_of k (fst p) (snd p))"
      by blast
    also have "\<dots> = mineCount b (surroundingCells_of k (fst p) (snd p))"
      by (rule mineCount_cong[OF sb, symmetric]) (auto intro: surroundingCells_of_inb[OF hm])
    finally show "adjacentMines (cell b p) = mineCount b (surroundingCells_of k (fst p) (snd p))" .
  }
qed

lemma mineCount_card:
  "distinct ps \<Longrightarrow> mineCount b ps = card {p \<in> set ps. isMine (cell b p)}"
  unfolding mineCount_def by (simp add: distinct_length_filter Collect_conj_eq Int_commute)

lemma distinct_neighbors_spec: "distinct (neighbors_spec k p)"
  by (simp add: neighbors_spec_def distinct_product)

lemma set_neighbors_spec:
  "set (neighbors_spec k p) = set (surroundingCells_of k (fst p) (snd p)) - {p}"
  by (auto simp: neighbors_spec_def adjacent8_def set_surroundingCells_of)

lemma inRange_inb:
  assumes "hasSize (GRID_SIZE_row k) (GRID_SIZE_col k) b" "inRange k draws"
  shows "\<forall>d\<in>set draws. inb b d"
  using assms by (auto simp: inRange_def list_all_iff hasSize_inb)

lemma initializeBoard_returns:
  assumes "inRange k draws" and "NUM_MINES k \<le> card (set draws)"
  shows "\<exists>b. initializeBoard k draws = Some (Inr b)"
proof -
  let ?R = "GRID_SIZE_row k" and ?C = "GRID_SIZE_col k"
  let ?new = "replicate ?R (replicate ?C initializeCell)"
  have hn: "hasSize ?R ?C ?new" by (rule hasSize_replicate)
  have ib: "\<forall>d\<in>set draws. inb ?new d" using hn assms(1) by (rule inRange_inb)
  have "{d \<in> set draws. \<not> isMine (cell ?new d)} = set draws"
    using ib by (auto simp: inb_def cell_def initializeCell_def)
  with assms(2) have "NUM_MINES k - 0 \<le> card {d \<in> set draws. \<not> isMine (cell ?new d)}"
    by simp
  from setMines_loop_returns[OF ib this] obtain mined where
    m: "setMines_loop (NUM_MINES k) draws 0 ?new = Some (Inr mined)" by blast
  from setMines_loop_result[OF m] have "sameBut mineOnly ?new mined" by simp
  then have hm: "hasSize ?R ?C mined" using hn by (simp add: sameBut_hasSize)
  have "\<forall>p\<in>set (positions mined). inb mined p" by (simp add: set_positions)
  from initializeBoard_pass[OF hm this] obtain b where
    "fold (initializeBoard_cell k) (positions mined) (Inr mined) = Inr b" by blast
  with m show ?thesis by (simp add: initializeBoard_def setMines_def)
qed


lemma initializeBoard_no_throw:
  assumes "inRange k draws"
  shows "initializeBoard k draws \<noteq> Some (Inl e)"
proof
  let ?R = "GRID_SIZE_row k" and ?C = "GRID_SIZE_col k"
  let ?new = "replicate ?R (replicate ?C initializeCell)"
  assume a: "initializeBoard k draws = Some (Inl e)"
  have hn: "hasSize ?R ?C ?new" by (rule hasSize_replicate)
  have ib: "\<forall>d\<in>set draws. inb ?new d" using hn assms by (rule inRange_inb)
  from setMines_loop_no_throw[OF ib] have nt: "setMines_loop (NUM_MINES k) draws 0 ?new \<noteq> Some (Inl e)" .
  with a obtain mined where
    m: "setMines_loop (NUM_MINES k) draws 0 ?new = Some (Inr mined)"
    and f: "fold (initializeBoard_cell k) (positions mined) (Inr mined) = Inl e"
    by (auto simp: initializeBoard_def setMines_def Let_def split: option.splits sum.splits)
  from setMines_loop_result[OF m] have "sameBut mineOnly ?new mined" by simp
  then have hm: "hasSize ?R ?C mined" using hn by (simp add: sameBut_hasSize)
  have "\<forall>p\<in>set (positions mined). inb mined p" by (simp add: set_positions)
  from initializeBoard_pass[OF hm this] f show False by auto
qed

section \<open>The flood fill\<close>

lemma floodStep_refl: "floodStep x x"
  by (simp add: floodStep_def)

lemma floodStep_trans: "floodStep x y \<Longrightarrow> floodStep y z \<Longrightarrow> floodStep x z"
  by (cases x; cases y; cases z) (auto simp: floodStep_def)

lemma floodStep_fields:
  assumes "floodStep x y"
  shows "isMine y = isMine x" "isFlagged y = isFlagged x" "adjacentMines y = adjacentMines x"
    "surroundingCells y = surroundingCells x"
proof -
  from assms have "y = x\<lparr>isRevealed := isRevealed y\<rparr>" by (simp add: floodStep_def)
  then obtain r where "y = x\<lparr>isRevealed := r\<rparr>" ..
  then show "isMine y = isMine x" "isFlagged y = isFlagged x" "adjacentMines y = adjacentMines x"
    "surroundingCells y = surroundingCells x"
    by simp_all
qed

lemma counted_refl: "counted s s"
  by (simp add: counted_def)

lemma counted_trans: "counted s s1 \<Longrightarrow> counted s1 s2 \<Longrightarrow> counted s s2"
  by (cases s; cases s1; cases s2) (auto simp: counted_def)

lemma flood_inb: "sameBut floodStep b b' \<Longrightarrow> inb b' p = inb b p"
  by (rule sameBut_inb)

lemma flood_good: "sameBut floodStep b b' \<Longrightarrow> good b' p = good b p"
  using sameBut_cell[of floodStep b b' p] sameBut_inb[of floodStep b b' p]
  by (auto simp: good_def dest: floodStep_fields)

lemma flood_adj:
  "sameBut floodStep b b' \<Longrightarrow> inb b p \<Longrightarrow> adjacentMines (cell b' p) = adjacentMines (cell b p)"
  using sameBut_cell[of floodStep b b' p] by (auto dest: floodStep_fields)

lemma flood_nbrs:
  "sameBut floodStep b b' \<Longrightarrow> inb b p \<Longrightarrow> surroundingCells (cell b' p) = surroundingCells (cell b p)"
  using sameBut_cell[of floodStep b b' p] by (auto dest: floodStep_fields)

lemma flood_rev:
  "sameBut floodStep b b' \<Longrightarrow> inb b p \<Longrightarrow> isRevealed (cell b p) \<Longrightarrow> isRevealed (cell b' p)"
  using sameBut_cell[of floodStep b b' p] by (auto simp: floodStep_def)

lemma flood_trans:
  "sameBut floodStep b b1 \<Longrightarrow> sameBut floodStep b1 b2 \<Longrightarrow> sameBut floodStep b b2"
  by (rule sameBut_trans) (auto intro: floodStep_trans)

lemma covered_right:
  assumes "covered b xs b1" "sameBut floodStep b b1" "sameBut floodStep b1 b2"
  shows "covered b xs b2"
  unfolding covered_def
proof
  fix x assume "x \<in> set xs"
  with assms(1) have i: "inb b x" and g: "good b x \<longrightarrow> isRevealed (cell b1 x)"
    by (auto simp: covered_def)
  from i have "inb b1 x" using flood_inb[OF assms(2)] by simp
  with g flood_rev[OF assms(3)] have "good b x \<longrightarrow> isRevealed (cell b2 x)" by blast
  with i show "inb b x \<and> (good b x \<longrightarrow> isRevealed (cell b2 x))" by simp
qed

lemma covered_left:
  assumes "covered b1 xs b2" "sameBut floodStep b b1"
  shows "covered b xs b2"
  using assms(1) flood_inb[OF assms(2)] flood_good[OF assms(2)]
  by (simp add: covered_def)

lemma covered_Cons:
  "covered b (x # xs) b' \<longleftrightarrow> inb b x \<and> (good b x \<longrightarrow> isRevealed (cell b' x)) \<and> covered b xs b'"
  by (auto simp: covered_def)

lemma closureD:
  "closure b b' \<Longrightarrow> inb b z \<Longrightarrow> \<not> isRevealed (cell b z) \<Longrightarrow> isRevealed (cell b' z) \<Longrightarrow>
   adjacentMines (cell b z) = 0 \<Longrightarrow> covered b (surroundingCells (cell b z)) b'"
  unfolding closure_def by blast

lemma closure_step:
  assumes b1: "sameBut floodStep b b1" and b2: "sameBut floodStep b1 b2" and b3: "sameBut floodStep b2 b3"
    and only: "\<And>z. inb b z \<Longrightarrow> z \<noteq> x \<Longrightarrow> cell b1 z = cell b z"
    and x: "adjacentMines (cell b x) = 0 \<Longrightarrow> covered b1 (surroundingCells (cell b x)) b2"
    and c12: "closure b1 b2" and c23: "closure b2 b3"
  shows "closure b b3"
  unfolding closure_def
proof (intro allI impI, elim conjE)
  fix z
  assume z: "inb b z" "\<not> isRevealed (cell b z)" "isRevealed (cell b3 z)"
    "adjacentMines (cell b z) = 0"
  have b12: "sameBut floodStep b b2" using b1 b2 by (rule flood_trans)
  have i1: "inb b1 z" and i2: "inb b2 z"
    using z(1) flood_inb[OF b1] flood_inb[OF b12] by simp_all
  show "covered b (surroundingCells (cell b z)) b3"
  proof (cases "z = x")
    case True
    with x z(4) have "covered b1 (surroundingCells (cell b x)) b2" by simp
    then have "covered b1 (surroundingCells (cell b x)) b3" using b2 b3 by (rule covered_right)
    then show ?thesis using True b1 by (simp add: covered_left)
  next
    case False
    with only z(1) have eq: "cell b1 z = cell b z" by simp
    show ?thesis
    proof (cases "isRevealed (cell b2 z)")
      case True
      with closureD[OF c12 i1] eq z have "covered b1 (surroundingCells (cell b1 z)) b2"
        by simp
      then have "covered b1 (surroundingCells (cell b z)) b3"
        unfolding eq using b2 b3 by (rule covered_right)
      then show ?thesis using b1 by (rule covered_left)
    next
      case False
      from flood_adj[OF b12 z(1)] z(4) have "adjacentMines (cell b2 z) = 0" by simp
      with closureD[OF c23 i2 False z(3)] have "covered b2 (surroundingCells (cell b2 z)) b3"
        by simp
      then have "covered b2 (surroundingCells (cell b z)) b3"
        using flood_nbrs[OF b12 z(1)] by simp
      then show ?thesis using b12 by (rule covered_left)
    qed
  qed
qed

lemma closure_refl: "closure b b"
  by (auto simp: closure_def)

lemma reveal_step:
  assumes "inb b x" "\<not> isFlagged (cell b x)" "\<not> isMine (cell b x)" "\<not> isRevealed (cell b x)"
  defines "b1 \<equiv> setCell b (fst x) (snd x) ((cell b x)\<lparr>isRevealed := True\<rparr>)"
  shows "sameBut floodStep b b1"
    and "isRevealed (cell b1 x)"
    and "inb b z \<Longrightarrow> z \<noteq> x \<Longrightarrow> cell b1 z = cell b z"
    and "countCells isRevealed b1 = countCells isRevealed b + 1"
proof -
  have x: "x = (fst x, snd x)" by simp
  have ib: "inb b (fst x, snd x)" using assms(1) by simp
  show "sameBut floodStep b b1"
    unfolding b1_def using ib assms(2-4)
    by (intro sameBut_setCell) (simp_all add: floodStep_def)
  show "isRevealed (cell b1 x)"
    unfolding b1_def using assms(1) by (subst cell_setCell) simp_all
  show "cell b1 z = cell b z" if "inb b z" "z \<noteq> x"
    unfolding b1_def using that by (subst cell_setCell) (auto simp: prod_eq_iff)
  show "countCells isRevealed b1 = countCells isRevealed b + 1"
    using countCells_setCell[of "fst x" b "snd x" isRevealed "(cell b x)\<lparr>isRevealed := True\<rparr>"]
      assms(1,4)
    by (simp add: b1_def inb_def cell_def)
qed

lemma recursiveSurroundCells_post:
  "recursiveSurroundCells s xs = Inr s' \<Longrightarrow> floodPost s xs s'"
proof (induction s xs arbitrary: s' rule: recursiveSurroundCells.induct)
  case (1 s)
  then show ?case
    by (simp add: floodPost_def sameBut_refl floodStep_refl counted_refl closure_refl covered_def)
next
  case (2 s x rest)
  let ?b = "board s"
  from "2.prems" obtain c where c: "cellAt ?b (fst x) (snd x) = Inr c"
    by (auto split: sum.splits)
  then have ib: "inb ?b x" and ceq: "c = cell ?b x"
    by (simp_all add: cellAt_Inr inb_def cell_def)
  show ?case
  proof (cases "\<not> isFlagged c \<and> \<not> isMine c \<and> \<not> isRevealed c")
    case False
    with c "2.prems" have "recursiveSurroundCells s rest = Inr s'" by simp
    from "2.IH"(3)[OF c False this] have p: "floodPost s rest s'" .
    then have sb: "sameBut floodStep ?b (board s')" by (simp add: floodPost_def)
    have "good ?b x \<longrightarrow> isRevealed (cell (board s') x)"
      using False flood_rev[OF sb ib] by (auto simp: good_def ceq)
    with p ib show ?thesis by (simp add: floodPost_def covered_Cons)
  next
    case True
    define s1 where
      "s1 = s\<lparr>board := setCell ?b (fst x) (snd x) (c\<lparr>isRevealed := True\<rparr>),
               revealedCount := revealedCount s + 1\<rparr>"
    have b1: "board s1 = setCell ?b (fst x) (snd x) ((cell ?b x)\<lparr>isRevealed := True\<rparr>)"
      by (simp add: s1_def ceq)
    from True have open_x: "\<not> isFlagged (cell ?b x)" "\<not> isMine (cell ?b x)" "\<not> isRevealed (cell ?b x)"
      by (simp_all add: ceq)
    note rs = reveal_step[OF ib open_x, folded b1]
    have cnt1: "counted s s1"
      using rs(4) by (simp add: counted_def s1_def)
    from c True "2.prems" obtain s2 where
      s2: "(if adjacentMines c = 0 then recursiveSurroundCells s1 (surroundingCells c)
            else Inr s1) = Inr s2"
      and rest: "recursiveSurroundCells s2 rest = Inr s'"
      by (auto simp: s1_def Let_def split: sum.splits if_splits)
    from "2.IH"(2)[OF c True s1_def s2 rest] have p2: "floodPost s2 rest s'" .
    have p1: "sameBut floodStep (board s1) (board s2) \<and> counted s1 s2 \<and> closure (board s1) (board s2) \<and>
              (adjacentMines c = 0 \<longrightarrow> covered (board s1) (surroundingCells c) (board s2))"
    proof (cases "adjacentMines c = 0")
      case z: True
      with s2 have "recursiveSurroundCells s1 (surroundingCells c) = Inr s2" by simp
      from "2.IH"(1)[OF c True s1_def z this] show ?thesis by (simp add: floodPost_def)
    next
      case False
      with s2 have "s2 = s1" by simp
      then show ?thesis
        using False by (simp add: sameBut_refl floodStep_refl counted_refl closure_refl)
    qed
    have sb1: "sameBut floodStep ?b (board s1)" by (rule rs(1))
    have sb2: "sameBut floodStep (board s1) (board s2)" using p1 by simp
    have sb3: "sameBut floodStep (board s2) (board s')" using p2 by (simp add: floodPost_def)
    have sb12: "sameBut floodStep ?b (board s2)" using sb1 sb2 by (rule flood_trans)
    have sb: "sameBut floodStep ?b (board s')" using sb12 sb3 by (rule flood_trans)
    have cnt: "counted s s'"
      using cnt1 p1 p2 by (auto simp: floodPost_def intro: counted_trans)
    have "isRevealed (cell (board s2) x)"
      using flood_rev[OF sb2 _ rs(2)] ib flood_inb[OF sb1] by simp
    then have rx: "isRevealed (cell (board s') x)"
      using flood_rev[OF sb3] ib flood_inb[OF sb12] by simp
    have "covered (board s2) rest (board s')" using p2 by (simp add: floodPost_def)
    then have "covered ?b rest (board s')" using sb12 by (rule covered_left)
    with ib rx have cov: "covered ?b (x # rest) (board s')" by (simp add: covered_Cons)
    have "closure ?b (board s')"
    proof (rule closure_step[OF sb1 sb2 sb3])
      show "cell (board s1) z = cell ?b z" if "inb ?b z" "z \<noteq> x" for z
        using that by (rule rs(3))
      show "covered (board s1) (surroundingCells (cell ?b x)) (board s2)"
        if "adjacentMines (cell ?b x) = 0"
        using that p1 by (simp add: ceq)
      show "closure (board s1) (board s2)" using p1 by simp
      show "closure (board s2) (board s')" using p2 by (simp add: floodPost_def)
    qed
    with sb cnt cov show ?thesis by (simp add: floodPost_def)
  qed
qed

lemma nbrsClosedD: "nbrsClosed b \<Longrightarrow> inb b p \<Longrightarrow> q \<in> set (surroundingCells (cell b p)) \<Longrightarrow> inb b q"
  unfolding nbrsClosed_def by blast

lemma nbrsClosed_flood:
  assumes "sameBut floodStep b b'" "nbrsClosed b"
  shows "nbrsClosed b'"
  unfolding nbrsClosed_def
proof (intro allI impI ballI)
  fix p q assume p: "inb b' p" and q: "q \<in> set (surroundingCells (cell b' p))"
  from p have "inb b p" using flood_inb[OF assms(1)] by simp
  with q flood_nbrs[OF assms(1)] nbrsClosedD[OF assms(2)] have "inb b q" by simp
  then show "inb b' q" using flood_inb[OF assms(1)] by simp
qed

lemma recursiveSurroundCells_returns:
  "nbrsClosed (board s) \<Longrightarrow> \<forall>x\<in>set xs. inb (board s) x \<Longrightarrow>
   \<exists>s'. recursiveSurroundCells s xs = Inr s'"
proof (induction s xs rule: recursiveSurroundCells.induct)
  case (1 s)
  then show ?case by simp
next
  case (2 s x rest)
  let ?b = "board s"
  from "2.prems" have ib: "inb ?b x" and ir: "\<forall>x\<in>set rest. inb ?b x" by simp_all
  define c where "c = cell ?b x"
  have c: "cellAt ?b (fst x) (snd x) = Inr c"
    using ib cellAt_inb[of ?b "fst x" "snd x"] by (simp add: c_def)
  show ?case
  proof (cases "\<not> isFlagged c \<and> \<not> isMine c \<and> \<not> isRevealed c")
    case False
    from "2.IH"(3)[OF c False "2.prems"(1) ir] show ?thesis
      using c False by auto
  next
    case True
    define s1 where
      "s1 = s\<lparr>board := setCell ?b (fst x) (snd x) (c\<lparr>isRevealed := True\<rparr>),
               revealedCount := revealedCount s + 1\<rparr>"
    have b1: "board s1 = setCell ?b (fst x) (snd x) ((cell ?b x)\<lparr>isRevealed := True\<rparr>)"
      by (simp add: s1_def c_def)
    from True have open_x: "\<not> isFlagged (cell ?b x)" "\<not> isMine (cell ?b x)" "\<not> isRevealed (cell ?b x)"
      by (simp_all add: c_def)
    note rs = reveal_step[OF ib open_x, folded b1]
    have nc1: "nbrsClosed (board s1)" using rs(1) "2.prems"(1) by (rule nbrsClosed_flood)
    have "\<exists>s2. (if adjacentMines c = 0 then recursiveSurroundCells s1 (surroundingCells c)
            else Inr s1) = Inr s2"
    proof (cases "adjacentMines c = 0")
      case z: True
      have "\<forall>q\<in>set (surroundingCells c). inb (board s1) q"
        using nbrsClosedD[OF "2.prems"(1) ib] flood_inb[OF rs(1)] by (simp add: c_def)
      from "2.IH"(1)[OF c True s1_def z nc1 this] z show ?thesis by simp
    next
      case False
      then show ?thesis by simp
    qed
    then obtain s2 where s2: "(if adjacentMines c = 0 then recursiveSurroundCells s1 (surroundingCells c)
            else Inr s1) = Inr s2" ..
    have sb2: "sameBut floodStep (board s1) (board s2)"
    proof (cases "adjacentMines c = 0")
      case True
      with s2 have "recursiveSurroundCells s1 (surroundingCells c) = Inr s2" by simp
      then show ?thesis using recursiveSurroundCells_post by (simp add: floodPost_def)
    next
      case False
      with s2 show ?thesis by (auto simp: sameBut_refl floodStep_refl)
    qed
    have nc2: "nbrsClosed (board s2)" using sb2 nc1 by (rule nbrsClosed_flood)
    have ir2: "\<forall>x\<in>set rest. inb (board s2) x"
      using ir flood_inb[OF rs(1)] flood_inb[OF sb2] by simp
    from "2.IH"(2)[OF c True s1_def s2 nc2 ir2] obtain s' where
      s': "recursiveSurroundCells s2 rest = Inr s'" ..
    have "recursiveSurroundCells s (x # rest) =
          (case (if adjacentMines c = 0 then recursiveSurroundCells s1 (surroundingCells c)
                 else Inr s1) of
             Inl e \<Rightarrow> Inl e
           | Inr s2 \<Rightarrow> recursiveSurroundCells s2 rest)"
      using c True by (simp add: s1_def Let_def)
    also have "\<dots> = Inr s'" unfolding s2 using s' by simp
    finally show ?thesis by blast
  qed
qed

section \<open>The branches of the handlers\<close>

lemma revealedCell_closure_cases [consumes 2, case_names noop mine win flood plain]:
  assumes "revealedCell_closure k seen s row col = Inr s'" and "inb (board s) (row, col)"
  obtains
    "isRevealed (cell (board s) (row, col)) \<or> isFlagged (cell (board s) (row, col))" "s' = s"
  | "\<not> isRevealed (cell (board s) (row, col))" "\<not> isFlagged (cell (board s) (row, col))"
    "isMine (cell (board s) (row, col))"
    "s' = (revealOne s (row, col))\<lparr>isGameOver := True,
            board := revealAll (board (revealOne s (row, col)))\<rparr>"
  | "\<not> isRevealed (cell (board s) (row, col))" "\<not> isFlagged (cell (board s) (row, col))"
    "\<not> isMine (cell (board s) (row, col))" "seen = winThreshold k - 1"
    "s' = (revealOne s (row, col))\<lparr>isGameWon := True,
            board := map (map forceFlag) (board (revealOne s (row, col))),
            flagCount := flagCount s +
              int (countCells (\<lambda>c. isRevealed c = False \<and> isFlagged c = False)
                     (board (revealOne s (row, col))))\<rparr>"
  | "\<not> isRevealed (cell (board s) (row, col))" "\<not> isFlagged (cell (board s) (row, col))"
    "\<not> isMine (cell (board s) (row, col))" "seen \<noteq> winThreshold k - 1"
    "adjacentMines (cell (board s) (row, col)) = 0"
    "recursiveSurroundCells (revealOne s (row, col))
       (surroundingCells (cell (board s) (row, col))) = Inr s'"
  | "\<not> isRevealed (cell (board s) (row, col))" "\<not> isFlagged (cell (board s) (row, col))"
    "\<not> isMine (cell (board s) (row, col))" "seen \<noteq> winThreshold k - 1"
    "adjacentMines (cell (board s) (row, col)) \<noteq> 0"
    "s' = revealOne s (row, col)"
proof -
  let ?c = "cell (board s) (row, col)"
  have c: "cellAt (board s) row col = Inr ?c" using assms(2) by (rule cellAt_inb)
  have r1: "board (revealOne s (row, col)) = setCell (board s) row col (?c\<lparr>isRevealed := True\<rparr>)"
    by (simp add: revealOne_def)
  have r2: "s\<lparr>board := setCell (board s) row col (?c\<lparr>isRevealed := True\<rparr>),
              revealedCount := revealedCount s + 1, isGameStart := True\<rparr> = revealOne s (row, col)"
    by (simp add: revealOne_def)
  have f: "flagCount (revealOne s (row, col)) = flagCount s" by (simp add: revealOne_def)
  show thesis
  proof (cases "isRevealed ?c \<or> isFlagged ?c")
    case True
    with assms(1) c have "s' = s" by (simp add: revealedCell_closure_def)
    with True show ?thesis by (rule that(1))
  next
    case nf: False
    then have n: "\<not> isRevealed ?c" "\<not> isFlagged ?c" by simp_all
    show ?thesis
    proof (cases "isMine ?c")
      case True
      with assms(1) c nf have "s' = (revealOne s (row, col))\<lparr>isGameOver := True,
            board := revealAll (board (revealOne s (row, col)))\<rparr>"
        by (auto simp: revealedCell_closure_def Let_def revealOne_def)
      with n True show ?thesis by (rule that(2))
    next
      case nm: False
      show ?thesis
      proof (cases "seen = winThreshold k - 1")
        case True
        with assms(1) c nf nm have "s' = (revealOne s (row, col))\<lparr>isGameWon := True,
            board := map (map forceFlag) (board (revealOne s (row, col))),
            flagCount := flagCount s +
              int (countCells (\<lambda>c. isRevealed c = False \<and> isFlagged c = False)
                     (board (revealOne s (row, col))))\<rparr>"
          by (auto simp: revealedCell_closure_def Let_def revealOne_def)
        with n nm True show ?thesis by (rule that(3))
      next
        case nw: False
        show ?thesis
        proof (cases "adjacentMines ?c = 0")
          case True
          with assms(1) c nf nm nw have "recursiveSurroundCells (revealOne s (row, col))
              (surroundingCells ?c) = Inr s'"
            by (auto simp: revealedCell_closure_def Let_def revealOne_def)
          with n nm nw True show ?thesis by (rule that(4))
        next
          case False
          with assms(1) c nf nm nw have "s' = revealOne s (row, col)"
            by (auto simp: revealedCell_closure_def Let_def revealOne_def)
          with n nm nw False show ?thesis by (rule that(5))
        qed
      qed
    qed
  qed
qed

lemma flagToggleSet_cases [consumes 2, case_names noop toggle]:
  assumes "flagToggleSet k s row col = Inr s'" and "inb (board s) (row, col)"
  obtains
    "isRevealed (cell (board s) (row, col))" "s' = s"
  | "\<not> isRevealed (cell (board s) (row, col))"
    "s' = (flagOne s (row, col))\<lparr>isGameWon := (revealedCount s = winThreshold k \<or> isGameWon s),
            isGameStart := True\<rparr>"
proof -
  let ?c = "cell (board s) (row, col)"
  have c: "cellAt (board s) row col = Inr ?c" using assms(2) by (rule cellAt_inb)
  show thesis
  proof (cases "isRevealed ?c")
    case True
    with assms(1) c have "s' = s" by (simp add: flagToggleSet_def)
    with True show ?thesis by (rule that(1))
  next
    case False
    have "s' = (flagOne s (row, col))\<lparr>isGameWon := (revealedCount s = winThreshold k \<or> isGameWon s),
            isGameStart := True\<rparr>"
    proof (cases "isFlagged ?c")
      case f: True
      show ?thesis
      proof (cases "revealedCount s = winThreshold k")
        case True
        with assms(1) c False f show ?thesis
          by (auto simp: flagToggleSet_def flagOne_def Let_def)
      next
        case w: False
        with assms(1) c False f show ?thesis
          by (cases s) (auto simp: flagToggleSet_def flagOne_def Let_def)
      qed
    next
      case f: False
      show ?thesis
      proof (cases "revealedCount s = winThreshold k")
        case True
        with assms(1) c False f show ?thesis
          by (auto simp: flagToggleSet_def flagOne_def Let_def)
      next
        case w: False
        with assms(1) c False f show ?thesis
          by (cases s) (auto simp: flagToggleSet_def flagOne_def Let_def)
      qed
    qed
    with False show ?thesis by (rule that(2))
  qed
qed

section \<open>Counting cells\<close>

lemma set_concat_cells: "set (concat b) = {cell b p |p. inb b p}"
proof (rule set_eqI)
  fix x
  have "x \<in> set (concat b) \<longleftrightarrow> (\<exists>row\<in>set b. x \<in> set row)" by simp
  also have "\<dots> \<longleftrightarrow> (\<exists>r<length b. x \<in> set (b ! r))"
    by (metis in_set_conv_nth)
  also have "\<dots> \<longleftrightarrow> (\<exists>r<length b. \<exists>c<length (b ! r). x = b ! r ! c)"
    by (metis in_set_conv_nth)
  also have "\<dots> \<longleftrightarrow> x \<in> {cell b p |p. inb b p}"
    by (auto simp: inb_def cell_def)
  finally show "x \<in> set (concat b) \<longleftrightarrow> x \<in> {cell b p |p. inb b p}" .
qed

lemma countCells_zero_iff: "countCells P b = 0 \<longleftrightarrow> (\<forall>p. inb b p \<longrightarrow> \<not> P (cell b p))"
proof -
  have "countCells P b = 0 \<longleftrightarrow> (\<forall>x\<in>set (concat b). \<not> P x)"
    by (simp add: countCells_def filter_empty_conv)
  also have "\<dots> \<longleftrightarrow> (\<forall>p. inb b p \<longrightarrow> \<not> P (cell b p))"
    unfolding set_concat_cells by blast
  finally show ?thesis .
qed

lemma countCells_map: "countCells P (map (map f) b) = countCells (\<lambda>x. P (f x)) b"
  by (simp add: countCells_def map_concat[symmetric] filter_map comp_def)

lemma countCells_disj:
  assumes "\<And>x. \<not> (P x \<and> Q x)"
  shows "countCells (\<lambda>x. P x \<or> Q x) b = countCells P b + countCells Q b"
proof -
  have "length (filter (\<lambda>x. P x \<or> Q x) xs) = length (filter P xs) + length (filter Q xs)" for xs
    using assms by (induction xs) auto
  then show ?thesis by (simp add: countCells_def)
qed

lemma countCells_compl:
  "countCells P b + countCells (\<lambda>x. \<not> P x) b = length (concat b)"
  unfolding countCells_def by (rule sum_length_filter_compl)

lemma length_concat_hasSize:
  assumes "hasSize R C b"
  shows "length (concat b) = R * C"
proof -
  have "map length b = map (\<lambda>_. C) b"
    using assms by (auto simp: hasSize_def in_set_conv_nth)
  then have "sum_list (map length b) = sum_list (map (\<lambda>_. C) b)"
    by (rule arg_cong)
  then show ?thesis
    using assms by (simp add: length_concat sum_list_triv hasSize_def)
qed

lemma sameBut_map_map: "(\<And>x. Q x (f x)) \<Longrightarrow> sameBut Q b (map (map f) b)"
  by (auto simp: sameBut_def inb_def cell_def)

section \<open>When the placement of the mines ends\<close>






lemma inRange_grid:
  "inRange k draws \<Longrightarrow>
   set draws \<subseteq> set (List.product [0..<GRID_SIZE_row k] [0..<GRID_SIZE_col k])"
  by (auto simp: inRange_def list_all_iff)

section \<open>Boards keep their shape\<close>

lemma static_nbrs:
  "static k b \<Longrightarrow> inb b p \<Longrightarrow> surroundingCells (cell b p) = surroundingCells_of k (fst p) (snd p)"
  unfolding static_def by blast

lemma static_hasSize: "static k b \<Longrightarrow> hasSize (GRID_SIZE_row k) (GRID_SIZE_col k) b"
  by (simp add: static_def)

lemma static_inb: "static k b \<Longrightarrow> inb b p \<longleftrightarrow> fst p < GRID_SIZE_row k \<and> snd p < GRID_SIZE_col k"
  by (rule hasSize_inb) (rule static_hasSize)

lemma static_keeps:
  assumes "sameBut keeps b b'" "static k b"
  shows "static k b'"
proof -
  have "surroundingCells (cell b' p) = surroundingCells_of k (fst p) (snd p)" if "inb b' p" for p
  proof -
    from that have i: "inb b p" using sameBut_inb[OF assms(1)] by simp
    from sameBut_cell[OF assms(1) i] have "surroundingCells (cell b' p) = surroundingCells (cell b p)"
      by (simp add: keeps_def)
    with static_nbrs[OF assms(2) i] show ?thesis by simp
  qed
  moreover have "countCells isMine b' = countCells isMine b"
    by (rule countCells_cong[OF assms(1)]) (simp add: keeps_def)
  ultimately show ?thesis
    using assms(2) sameBut_hasSize[OF assms(1)] unfolding static_def by auto
qed

lemma static_nbrsClosed:
  assumes "static k b"
  shows "nbrsClosed b"
  unfolding nbrsClosed_def
proof (intro allI impI ballI)
  fix p q assume "inb b p" "q \<in> set (surroundingCells (cell b p))"
  then have "q \<in> set (surroundingCells_of k (fst p) (snd p))"
    using static_nbrs[OF assms] by simp
  moreover have "hasSize (GRID_SIZE_row k) (GRID_SIZE_col k) b"
    using assms by (simp add: static_def)
  ultimately show "inb b q" by (rule surroundingCells_of_inb[rotated])
qed

lemma static_initializeBoard:
  assumes "initializeBoard k draws = Some (Inr b)"
  shows "static k b"
  using initializeBoard_Inr(1,2,4)[OF assms] by (simp add: static_def)

lemma countCells_setCell_same:
  assumes "inb b p" "P v = P (cell b p)"
  shows "countCells P (setCell b (fst p) (snd p) v) = countCells P b"
  using countCells_setCell[of "fst p" b "snd p" P v] assms
  by (simp add: inb_def cell_def)

lemma keeps_trans: "keeps x y \<Longrightarrow> keeps y z \<Longrightarrow> keeps x z"
  by (simp add: keeps_def)

lemma keeps_floodStep: "floodStep x y \<Longrightarrow> keeps x y"
  by (auto simp: keeps_def dest: floodStep_fields)

lemma keeps_revealOne:
  assumes "inb (board s) p"
  shows "sameBut keeps (board s) (board (revealOne s p))"
proof -
  have "inb (board s) (fst p, snd p)" using assms by simp
  then have "sameBut keeps (board s)
      (setCell (board s) (fst p) (snd p) ((cell (board s) p)\<lparr>isRevealed := True\<rparr>))"
    by (rule sameBut_setCell) (simp_all add: keeps_def)
  then show ?thesis by (simp add: revealOne_def)
qed

lemma keeps_revealedCell_closure:
  assumes r: "revealedCell_closure k seen s row col = Inr s'" and ib: "inb (board s) (row, col)"
  shows "sameBut keeps (board s) (board s')"
  using r ib
proof (cases rule: revealedCell_closure_cases)
  case noop
  then show ?thesis by (simp add: sameBut_refl keeps_def)
next
  case mine
  have "sameBut keeps (board (revealOne s (row, col))) (board s')"
    unfolding mine(4) revealAll_def by (simp add: sameBut_map_map keeps_def)
  with keeps_revealOne[OF ib] show ?thesis by (rule sameBut_trans) (rule keeps_trans)
next
  case win
  have "sameBut keeps (board (revealOne s (row, col))) (board s')"
    unfolding win(5) by (simp add: sameBut_map_map keeps_def forceFlag_def)
  with keeps_revealOne[OF ib] show ?thesis by (rule sameBut_trans) (rule keeps_trans)
next
  case flood
  from recursiveSurroundCells_post[OF flood(6)]
  have "sameBut floodStep (board (revealOne s (row, col))) (board s')"
    by (simp add: floodPost_def)
  then have "sameBut keeps (board (revealOne s (row, col))) (board s')"
    by (rule sameBut_mono) (rule keeps_floodStep)
  with keeps_revealOne[OF ib] show ?thesis by (rule sameBut_trans) (rule keeps_trans)
next
  case plain
  with keeps_revealOne[OF ib] show ?thesis by simp
qed

lemma keeps_flagToggleSet:
  assumes r: "flagToggleSet k s row col = Inr s'" and ib: "inb (board s) (row, col)"
  shows "sameBut keeps (board s) (board s')"
  using r ib
proof (cases rule: flagToggleSet_cases)
  case noop
  then show ?thesis by (simp add: sameBut_refl keeps_def)
next
  case toggle
  have "sameBut keeps (board s)
      (setCell (board s) row col ((cell (board s) (row, col))\<lparr>isFlagged := v\<rparr>))" for v
    using ib by (rule sameBut_setCell) (simp_all add: keeps_def)
  then show ?thesis unfolding toggle(2) by (simp add: flagOne_def)
qed

section \<open>The handlers return\<close>

lemma revealedCell_closure_returns:
  assumes st: "static k (board s)" and ib: "inb (board s) (row, col)"
  shows "\<exists>s'. revealedCell_closure k seen s row col = Inr s'"
proof -
  let ?c = "cell (board s) (row, col)"
  let ?s1 = "revealOne s (row, col)"
  have c: "cellAt (board s) row col = Inr ?c" using ib by (rule cellAt_inb)
  have s1: "s\<lparr>board := setCell (board s) row col (?c\<lparr>isRevealed := True\<rparr>),
              revealedCount := revealedCount s + 1, isGameStart := True\<rparr> = ?s1"
    by (simp add: revealOne_def)
  have st1: "static k (board ?s1)" using keeps_revealOne[OF ib] st by (rule static_keeps)
  then have nc: "nbrsClosed (board ?s1)" by (rule static_nbrsClosed)
  have "\<forall>x\<in>set (surroundingCells ?c). inb (board ?s1) x"
    using nbrsClosedD[OF static_nbrsClosed[OF st] ib] by (simp add: revealOne_def)
  from recursiveSurroundCells_returns[OF nc this] obtain s' where
    "recursiveSurroundCells ?s1 (surroundingCells ?c) = Inr s'" ..
  then show ?thesis
    unfolding revealedCell_closure_def c by (simp add: Let_def s1)
qed

lemma revealedCell_returns:
  assumes "static k (board s)" and "inb (board s) (row, col)"
  shows "\<exists>s'. revealedCell k s row col = Inr s'"
  unfolding revealedCell_def using assms by (rule revealedCell_closure_returns)

lemma flagToggleSet_returns:
  assumes "inb (board s) (row, col)"
  shows "\<exists>s'. flagToggleSet k s row col = Inr s'"
  using assms by (simp add: flagToggleSet_def cellAt_inb Let_def)

text \<open>
  So a handler called on a cell of a static board returns a state: \<open>stateOf\<close>
  gives it, and its board is static again.
\<close>

lemma useEffect_mount_mounted:
  assumes "inRange k draws" and "NUM_MINES k \<le> card (set draws)"
  shows "useEffect_mount k draws = Some (Inr (mounted k draws))"
proof -
  from initializeBoard_returns[OF assms] obtain b where
    "initializeBoard k draws = Some (Inr b)" ..
  then have "useEffect_mount k draws = Some (Inr (useState_initial\<lparr>board := b\<rparr>))"
    by (simp add: useEffect_mount_def)
  then show ?thesis by (simp add: mounted_def)
qed

lemma static_mounted:
  assumes "inRange k draws" and "NUM_MINES k \<le> card (set draws)"
  shows "static k (board (mounted k draws))"
proof -
  from initializeBoard_returns[OF assms] obtain b where
    b: "initializeBoard k draws = Some (Inr b)" ..
  then have "mounted k draws = useState_initial\<lparr>board := b\<rparr>"
    by (simp add: mounted_def useEffect_mount_def)
  with static_initializeBoard[OF b] show ?thesis by simp
qed

lemma revealedCell_stateOf:
  assumes "static k (board s)" and "row < GRID_SIZE_row k" and "col < GRID_SIZE_col k"
  shows "revealedCell k s row col = Inr (stateOf (revealedCell k s row col))"
    and "static k (board (stateOf (revealedCell k s row col)))"
proof -
  have ib: "inb (board s) (row, col)" using assms by (simp add: static_inb)
  with assms(1) obtain s' where s': "revealedCell k s row col = Inr s'"
    using revealedCell_returns by blast
  then show "revealedCell k s row col = Inr (stateOf (revealedCell k s row col))"
    by (simp add: stateOf_def)
  from s' have "sameBut keeps (board s) (board s')"
    unfolding revealedCell_def using ib by (rule keeps_revealedCell_closure)
  then have "static k (board s')" using assms(1) by (rule static_keeps)
  then show "static k (board (stateOf (revealedCell k s row col)))"
    by (simp add: s' stateOf_def)
qed

section \<open>The invariant of the worlds\<close>

lemma wellFormedD:
  assumes "wellFormed k w"
  shows "b \<in> set (boards w) \<Longrightarrow> static k b"
    and "shown w < length (boards w)"
    and "board (state w) = boards w ! shown w"
    and "renders w \<noteq> []"
    and "r_board (last (renders w)) = shown w"
    and "r_revealedCount (last (renders w)) = revealedCount (state w)"
    and "i < length (renders w) \<Longrightarrow> r_board (renders w ! i) < length (boards w)"
    and "t \<in> set (timers w) \<Longrightarrow>
         fst t < length (renders w) \<and> fst (snd t) < GRID_SIZE_row k \<and> snd (snd t) < GRID_SIZE_col k"
  using assms unfolding wellFormed_def by (blast, simp_all)

lemma wellFormed_static_nth:
  "wellFormed k w \<Longrightarrow> g < length (boards w) \<Longrightarrow> static k (boards w ! g)"
  by (simp add: wellFormedD(1))

lemma wellFormed_static_state: "wellFormed k w \<Longrightarrow> static k (board (state w))"
  by (simp add: wellFormedD(2,3) wellFormed_static_nth)

lemma wellFormed_rerender:
  assumes w: "wellFormed k w" and g: "g < length (boards w)" and st: "static k (board s')"
  shows "wellFormed k (rerender w g s')"
proof -
  have "static k b" if "b \<in> set ((boards w)[g := board s'])" for b
    using that st wellFormedD(1)[OF w] set_update_subset_insert[of "boards w" g "board s'"]
    by auto
  moreover have "r_board r < length (boards w)" if "r \<in> set (renders w)" for r
    using that wellFormedD(7)[OF w] by (auto simp: in_set_conv_nth)
  moreover have "fst t < Suc (length (renders w)) \<and> fst (snd t) < GRID_SIZE_row k \<and>
      snd (snd t) < GRID_SIZE_col k" if "t \<in> set (timers w)" for t
    using wellFormedD(8)[OF w that] by simp
  ultimately show ?thesis
    using g by (auto simp: wellFormed_def rerender_def)
qed

lemma nth_update_clickCount:
  assumes "j < length rs"
  shows "r_board (rs[i := (rs ! i)\<lparr>clickCount := n\<rparr>] ! j) = r_board (rs ! j)"
    and "r_revealedCount (rs[i := (rs ! i)\<lparr>clickCount := n\<rparr>] ! j) = r_revealedCount (rs ! j)"
proof -
  have "rs[i := (rs ! i)\<lparr>clickCount := n\<rparr>] ! j =
        (rs ! j)\<lparr>clickCount := (if i = j then n else clickCount (rs ! j))\<rparr>"
    using assms by (cases "i = j") simp_all
  then show "r_board (rs[i := (rs ! i)\<lparr>clickCount := n\<rparr>] ! j) = r_board (rs ! j)"
    and "r_revealedCount (rs[i := (rs ! i)\<lparr>clickCount := n\<rparr>] ! j) = r_revealedCount (rs ! j)"
    by simp_all
qed

lemma last_update_clickCount:
  assumes "rs \<noteq> []"
  shows "r_board (last (rs[i := (rs ! i)\<lparr>clickCount := n\<rparr>])) = r_board (last rs)"
    and "r_revealedCount (last (rs[i := (rs ! i)\<lparr>clickCount := n\<rparr>])) = r_revealedCount (last rs)"
  using assms by (simp_all add: last_conv_nth nth_update_clickCount)

lemma wellFormed_setClickCount:
  assumes w: "wellFormed k w"
  shows "wellFormed k (setClickCount w i n)"
proof -
  let ?rs = "(renders w)[i := (renders w ! i)\<lparr>clickCount := n\<rparr>]"
  have "r_board r < length (boards w)" if "r \<in> set ?rs" for r
  proof -
    from that obtain j where "j < length (renders w)" "r = ?rs ! j"
      by (auto simp: in_set_conv_nth)
    then show ?thesis using wellFormedD(7)[OF w] by (simp add: nth_update_clickCount)
  qed
  then show ?thesis
    using w last_update_clickCount[OF wellFormedD(4)[OF w]]
    by (simp add: wellFormed_def setClickCount_def)
qed

lemma setClickCount_fields [simp]:
  "boards (setClickCount w i n) = boards w" "shown (setClickCount w i n) = shown w"
  "state (setClickCount w i n) = state w" "timers (setClickCount w i n) = timers w"
  "length (renders (setClickCount w i n)) = length (renders w)"
  by (simp_all add: setClickCount_def)

lemma flagToggle_event_wellFormed:
  assumes w: "wellFormed k w" and ib: "inb (board (state w)) (row, col)"
  shows "\<exists>w'. flagToggle_event k w row col = Inr w' \<and> wellFormed k w'"
proof -
  let ?c = "cell (board (state w)) (row, col)"
  have c: "cellAt (board (state w)) row col = Inr ?c" using ib by (rule cellAt_inb)
  show ?thesis
  proof (cases "isRevealed ?c")
    case True
    then show ?thesis using w by (simp add: flagToggle_event_def c)
  next
    case False
    from flagToggleSet_returns[OF ib] obtain s' where
      s': "flagToggleSet k (state w) row col = Inr s'" ..
    from keeps_flagToggleSet[OF s' ib] wellFormed_static_state[OF w]
    have "static k (board s')" by (rule static_keeps)
    with w wellFormedD(2)[OF w] have "wellFormed k (rerender w (shown w) s')"
      by (rule wellFormed_rerender)
    then show ?thesis using False by (simp add: flagToggle_event_def c s')
  qed
qed

lemma handleClick_wellFormed:
  assumes w: "wellFormed k w" and ib: "inb (board (state w)) (row, col)"
  shows "\<exists>w'. handleClick k w row col = Inr w' \<and> wellFormed k w'"
proof -
  let ?i = "length (renders w) - 1"
  let ?w1 = "setClickCount w ?i (clickCount (renders w ! ?i) + 1)"
  have w1: "wellFormed k ?w1" using w by (rule wellFormed_setClickCount)
  have i: "?i < length (renders w)" using wellFormedD(4)[OF w] by simp
  show ?thesis
  proof (cases "clickCount (renders ?w1 ! ?i) < 2")
    case True
    have rc: "row < GRID_SIZE_row k \<and> col < GRID_SIZE_col k"
      using ib static_inb[OF wellFormed_static_state[OF w], of "(row, col)"] by simp
    have "wellFormed k (?w1\<lparr>timers := timers ?w1 @ [(?i, row, col)]\<rparr>)"
      using w1 i rc by (auto simp: wellFormed_def)
    with True show ?thesis by (simp add: handleClick_def Let_def)
  next
    case False
    from flagToggle_event_wellFormed[OF w1, of row col] ib
    obtain w' where "flagToggle_event k ?w1 row col = Inr w'" "wellFormed k w'" by auto
    with False show ?thesis by (simp add: handleClick_def Let_def)
  qed
qed

lemma timeout_eq:
  assumes w: "wellFormed k w" and t: "timers w = (i, row, col) # rest"
  defines "r \<equiv> renders w ! i"
  defines "b \<equiv> boards w ! r_board (renders w ! i)"
  shows "i < length (renders w)" and "r_board r < length (boards w)"
    and "static k b" and "inb b (row, col)"
    and "\<exists>s'. revealedCell_closure k (r_revealedCount r) ((state w)\<lparr>board := b\<rparr>) row col = Inr s'"
    and "timeout k w =
         Inr (setClickCount
               (if clickCount r < 2 \<and> \<not> (isRevealed (cell b (row, col)) \<or> isFlagged (cell b (row, col)))
                then rerender (w\<lparr>timers := rest\<rparr>) (r_board r)
                       (stateOf (revealedCell_closure k (r_revealedCount r)
                                   ((state w)\<lparr>board := b\<rparr>) row col))
                else w\<lparr>timers := rest\<rparr>) i 0)"
proof -
  let ?s = "(state w)\<lparr>board := b\<rparr>"
  from wellFormedD(8)[OF w, of "(i, row, col)"] t have
    i: "i < length (renders w)" and rc: "row < GRID_SIZE_row k" "col < GRID_SIZE_col k"
    by simp_all
  show "i < length (renders w)" by (rule i)
  show g: "r_board r < length (boards w)" unfolding r_def using w i by (rule wellFormedD(7))
  show st: "static k b" unfolding b_def using wellFormed_static_nth[OF w g] by (simp add: r_def)
  show ib: "inb b (row, col)" using st rc by (simp add: static_inb)
  have c: "cellAt b row col = Inr (cell b (row, col))" using ib by (rule cellAt_inb)
  have "static k (board ?s)" "inb (board ?s) (row, col)" using st ib by simp_all
  from revealedCell_closure_returns[OF this] show
    ex: "\<exists>s'. revealedCell_closure k (r_revealedCount r) ?s row col = Inr s'" .
  then obtain s' where s': "revealedCell_closure k (r_revealedCount r) ?s row col = Inr s'" ..
  show "timeout k w =
         Inr (setClickCount
               (if clickCount r < 2 \<and> \<not> (isRevealed (cell b (row, col)) \<or> isFlagged (cell b (row, col)))
                then rerender (w\<lparr>timers := rest\<rparr>) (r_board r)
                       (stateOf (revealedCell_closure k (r_revealedCount r) ?s row col))
                else w\<lparr>timers := rest\<rparr>) i 0)"
    using c s' unfolding r_def b_def by (simp add: timeout_def t Let_def stateOf_def)
qed

lemma timeout_wellFormed:
  assumes w: "wellFormed k w"
  shows "\<exists>w'. timeout k w = Inr w' \<and> wellFormed k w'"
proof (cases "timers w")
  case Nil
  then show ?thesis using w by (simp add: timeout_def)
next
  case (Cons t rest)
  obtain i row col where t: "t = (i, row, col)" by (cases t)
  let ?w1 = "w\<lparr>timers := rest\<rparr>"
  let ?r = "renders w ! i"
  let ?b = "boards w ! r_board ?r"
  let ?s = "(state w)\<lparr>board := ?b\<rparr>"
  note te = timeout_eq[OF w Cons[unfolded t]]
  have w1: "wellFormed k ?w1" using w Cons by (auto simp: wellFormed_def)
  from te(5) obtain s' where
    s': "revealedCell_closure k (r_revealedCount ?r) ?s row col = Inr s'" ..
  from keeps_revealedCell_closure[OF s'] te(3,4) have "static k (board s')"
    by (auto intro: static_keeps)
  with w1 have "wellFormed k (rerender ?w1 (r_board ?r) s')"
    using te(2) by (intro wellFormed_rerender) simp_all
  with w1 show ?thesis
    unfolding te(6) by (auto simp: s' stateOf_def intro: wellFormed_setClickCount)
qed

lemma flagToggle_event_eq:
  assumes "inb (board (state w)) (row, col)"
  shows "flagToggle_event k w row col =
         Inr (if isRevealed (cell (board (state w)) (row, col)) then w
              else rerender w (shown w) (stateOf (flagToggleSet k (state w) row col)))"
proof -
  from flagToggleSet_returns[OF assms] obtain s' where
    "flagToggleSet k (state w) row col = Inr s'" ..
  then show ?thesis
    using assms by (simp add: flagToggle_event_def cellAt_inb stateOf_def)
qed

lemma faceClick_wellFormed:
  assumes w: "wellFormed k w" and f: "faceClick k w draws = Some (Inr w')"
  shows "wellFormed k w'"
proof -
  from f obtain b where b: "initializeBoard k draws = Some (Inr b)"
    by (auto simp: faceClick_def handleFaceClick_def split: option.splits sum.splits)
  let ?s' = "(state w)\<lparr>flagCount := 0, revealedCount := 0, isGameStart := False,
                        isGameOver := False, isGameWon := False, board := b\<rparr>"
  from f b have w': "w' = w\<lparr>state := ?s', boards := boards w @ [b], shown := length (boards w),
       renders := renders w @
         [\<lparr>r_board = length (boards w), r_revealedCount = 0, clickCount = 0\<rparr>]\<rparr>"
    by (simp add: faceClick_def handleFaceClick_def)
  have "r_board r < Suc (length (boards w))" if "r \<in> set (renders w)" for r
    using that wellFormedD(7)[OF w] by (auto simp: in_set_conv_nth less_Suc_eq)
  moreover have "fst t < Suc (length (renders w)) \<and> fst (snd t) < GRID_SIZE_row k \<and>
      snd (snd t) < GRID_SIZE_col k" if "t \<in> set (timers w)" for t
    using wellFormedD(8)[OF w that] by simp
  ultimately show ?thesis
    unfolding w' using w static_initializeBoard[OF b] by (auto simp: wellFormed_def)
qed

lemma faceClick_returns:
  assumes "inRange k draws" and "NUM_MINES k \<le> card (set draws)"
  shows "\<exists>w'. faceClick k w draws = Some (Inr w')"
proof -
  from initializeBoard_returns[OF assms] obtain b where
    "initializeBoard k draws = Some (Inr b)" ..
  then show ?thesis by (simp add: faceClick_def handleFaceClick_def)
qed

lemma mount_wellFormed:
  assumes "mount k draws = Some (Inr w)"
  shows "wellFormed k w"
proof -
  from assms obtain b where b: "initializeBoard k draws = Some (Inr b)"
    by (auto simp: mount_def useEffect_mount_def split: option.splits sum.splits)
  with assms have "w = \<lparr>boards = [b], shown = 0, state = useState_initial\<lparr>board := b\<rparr>,
      renders = [\<lparr>r_board = 0, r_revealedCount = 0, clickCount = 0\<rparr>], timers = []\<rparr>"
    by (simp add: mount_def useEffect_mount_def useState_initial_def)
  with static_initializeBoard[OF b] show ?thesis
    by (simp add: wellFormed_def useState_initial_def)
qed

lemma possible_inb:
  "possible w (Click row col) \<longleftrightarrow> inb (board (state w)) (row, col)"
  "possible w (RightClick row col) \<longleftrightarrow> inb (board (state w)) (row, col)"
  by (simp_all add: inb_def)

lemma step_wellFormed:
  assumes "wellFormed k w" and "possible w e" and "step k w e = Some (Inr w')"
  shows "wellFormed k w'"
proof (cases e)
  case (Click row col)
  with assms(2) have "inb (board (state w)) (row, col)" by (simp add: inb_def)
  from handleClick_wellFormed[OF assms(1) this] assms(3) Click show ?thesis by auto
next
  case (RightClick row col)
  with assms(2) have "inb (board (state w)) (row, col)" by (simp add: inb_def)
  from flagToggle_event_wellFormed[OF assms(1) this] assms(3) RightClick show ?thesis
    by (auto simp: handleDesktopRightClick_def)
next
  case Timeout
  with timeout_wellFormed[OF assms(1)] assms(3) show ?thesis by auto
next
  case (FaceClick draws)
  with assms(3) have "faceClick k w draws = Some (Inr w')" by simp
  with assms(1) show ?thesis by (rule faceClick_wellFormed)
qed

lemma reachable_wellFormed: "reachable k w \<Longrightarrow> wellFormed k w"
  by (induction rule: reachable.induct) (auto intro: mount_wellFormed step_wellFormed)

text \<open>
  Every possible event returns a world, the face button whenever the generation
  of the new board returns.
\<close>

lemma step_returns:
  assumes "wellFormed k w" and "possible w e" and "noRestart w e"
  shows "\<exists>w'. step k w e = Some (Inr w')"
proof (cases e)
  case (Click row col)
  with assms(2) have "inb (board (state w)) (row, col)" by (simp add: inb_def)
  from handleClick_wellFormed[OF assms(1) this] Click show ?thesis by auto
next
  case (RightClick row col)
  with assms(2) have "inb (board (state w)) (row, col)" by (simp add: inb_def)
  from flagToggle_event_wellFormed[OF assms(1) this] RightClick show ?thesis
    by (auto simp: handleDesktopRightClick_def)
next
  case Timeout
  with timeout_wellFormed[OF assms(1)] show ?thesis by auto
next
  case (FaceClick draws)
  with assms(3) show ?thesis by simp
qed

section \<open>Worlds in which nothing moves\<close>

text \<open>
  \<open>frozen P w\<close>: the world is quiet and every cell of the board in the state
  satisfies \<open>P\<close>. With \<open>P\<close> "revealed" no event but the face button changes the
  state; with \<open>P\<close> "revealed or flagged" no event that only reveals does.
\<close>

lemma rerender_fields [simp]:
  "state (rerender w g s') = s'" "shown (rerender w g s') = g"
  "timers (rerender w g s') = timers w"
  by (simp_all add: rerender_def)

lemma quiet_setClickCount:
  assumes "wellFormed k w" "quiet w"
  shows "quiet (setClickCount w i n)"
proof -
  have "r_board (renders (setClickCount w i n) ! fst t) = shown w" if "t \<in> set (timers w)" for t
  proof -
    from wellFormedD(8)[OF assms(1) that] have "fst t < length (renders w)" by simp
    then have "r_board (renders (setClickCount w i n) ! fst t) = r_board (renders w ! fst t)"
      by (simp add: setClickCount_def nth_update_clickCount)
    with assms(2) that show ?thesis by (simp add: quiet_def list_all_iff)
  qed
  then show ?thesis by (simp add: quiet_def list_all_iff)
qed

lemma frozen_timeout:
  assumes wf: "wellFormed k w" and q: "quiet w"
    and P: "\<And>p. inb (board (state w)) p \<Longrightarrow>
              isRevealed (cell (board (state w)) p) \<or> isFlagged (cell (board (state w)) p)"
  shows "\<exists>w'. timeout k w = Inr w' \<and> state w' = state w \<and> quiet w'"
proof (cases "timers w")
  case Nil
  then show ?thesis using q by (simp add: timeout_def)
next
  case (Cons t rest)
  obtain i row col where t: "t = (i, row, col)" by (cases t)
  note te = timeout_eq[OF wf Cons[unfolded t]]
  have "r_board (renders w ! i) = shown w"
    using q Cons t by (simp add: quiet_def)
  then have b: "boards w ! r_board (renders w ! i) = board (state w)"
    using wellFormedD(3)[OF wf] by simp
  have eq: "timeout k w = Inr (setClickCount (w\<lparr>timers := rest\<rparr>) i 0)"
    unfolding te(6) using P[of "(row, col)"] te(4) by (auto simp: b)
  have w1: "wellFormed k (w\<lparr>timers := rest\<rparr>)" using wf Cons by (auto simp: wellFormed_def)
  have "quiet (w\<lparr>timers := rest\<rparr>)" using q Cons by (simp add: quiet_def)
  with w1 have "quiet (setClickCount (w\<lparr>timers := rest\<rparr>) i 0)" by (rule quiet_setClickCount)
  with eq show ?thesis by simp
qed

lemma frozen_first_click:
  assumes wf: "wellFormed k w" and q: "quiet w" and c: "clickCount (last (renders w)) = 0"
  shows "\<exists>w'. handleClick k w row col = Inr w' \<and> state w' = state w \<and> quiet w'"
proof -
  let ?i = "length (renders w) - 1"
  let ?w1 = "setClickCount w ?i (clickCount (renders w ! ?i) + 1)"
  have ne: "renders w \<noteq> []" using wf by (rule wellFormedD(4))
  then have i: "?i < length (renders w)" by simp
  have l: "last (renders w) = renders w ! ?i" using ne by (rule last_conv_nth)
  have one: "clickCount (renders ?w1 ! ?i) = 1"
    using i c l by (simp add: setClickCount_def)
  then have eq: "handleClick k w row col = Inr (?w1\<lparr>timers := timers ?w1 @ [(?i, row, col)]\<rparr>)"
    by (simp add: handleClick_def Let_def)
  have q1: "quiet ?w1" using wf q by (rule quiet_setClickCount)
  have "r_board (renders ?w1 ! ?i) = shown w"
    using i l wellFormedD(5)[OF wf] by (simp add: setClickCount_def nth_update_clickCount)
  with q1 have "quiet (?w1\<lparr>timers := timers ?w1 @ [(?i, row, col)]\<rparr>)"
    by (simp add: quiet_def)
  with eq show ?thesis by simp
qed

lemma frozen_flagToggle:
  assumes ib: "inb (board (state w)) (row, col)"
    and P: "isRevealed (cell (board (state w)) (row, col))"
  shows "flagToggle_event k w row col = Inr w"
  using flagToggle_event_eq[OF ib] P by simp

lemma frozen_click:
  assumes wf: "wellFormed k w" and q: "quiet w"
    and ib: "inb (board (state w)) (row, col)"
    and P: "isRevealed (cell (board (state w)) (row, col))"
  shows "\<exists>w'. handleClick k w row col = Inr w' \<and> state w' = state w \<and> quiet w'"
proof -
  let ?i = "length (renders w) - 1"
  let ?w1 = "setClickCount w ?i (clickCount (renders w ! ?i) + 1)"
  have ne: "renders w \<noteq> []" using wf by (rule wellFormedD(4))
  then have i: "?i < length (renders w)" by simp
  have l: "last (renders w) = renders w ! ?i" using ne by (rule last_conv_nth)
  have q1: "quiet ?w1" using wf q by (rule quiet_setClickCount)
  show ?thesis
  proof (cases "clickCount (renders ?w1 ! ?i) < 2")
    case True
    then have eq: "handleClick k w row col = Inr (?w1\<lparr>timers := timers ?w1 @ [(?i, row, col)]\<rparr>)"
      by (simp add: handleClick_def Let_def)
    have "r_board (renders ?w1 ! ?i) = shown w"
      using i l wellFormedD(5)[OF wf] by (simp add: setClickCount_def nth_update_clickCount)
    with q1 have "quiet (?w1\<lparr>timers := timers ?w1 @ [(?i, row, col)]\<rparr>)"
      by (simp add: quiet_def)
    with eq show ?thesis by simp
  next
    case False
    have "flagToggle_event k ?w1 row col = Inr ?w1"
      using ib P by (intro frozen_flagToggle) simp_all
    with False have "handleClick k w row col = Inr ?w1"
      by (simp add: handleClick_def Let_def)
    with q1 show ?thesis by simp
  qed
qed

lemma frozen_step:
  assumes wf: "wellFormed k w" and q: "quiet w" and pos: "possible w e"
    and P: "\<And>p. inb (board (state w)) p \<Longrightarrow> P (cell (board (state w)) p)"
    and PR: "\<And>c. P c \<Longrightarrow> isRevealed c \<or> isFlagged c"
    and A: "revealOnly w e \<or> ((\<forall>c. P c \<longrightarrow> isRevealed c) \<and> noRestart w e)"
  shows "\<exists>w'. step k w e = Some (Inr w') \<and> state w' = state w \<and> quiet w'"
proof (cases e)
  case (Click row col)
  from pos Click have ib: "inb (board (state w)) (row, col)" by (simp add: inb_def)
  from A show ?thesis
  proof
    assume "revealOnly w e"
    with Click have "clickCount (last (renders w)) = 0" by simp
    from frozen_first_click[OF wf q this] Click show ?thesis by simp
  next
    assume "(\<forall>c. P c \<longrightarrow> isRevealed c) \<and> noRestart w e"
    with P[OF ib] have "isRevealed (cell (board (state w)) (row, col))" by blast
    from frozen_click[OF wf q ib this] Click show ?thesis by simp
  qed
next
  case (RightClick row col)
  from pos RightClick have ib: "inb (board (state w)) (row, col)" by (simp add: inb_def)
  from A RightClick have "\<forall>c. P c \<longrightarrow> isRevealed c" by simp
  with P[OF ib] have "isRevealed (cell (board (state w)) (row, col))" by blast
  from frozen_flagToggle[OF ib this] RightClick q show ?thesis
    by (simp add: handleDesktopRightClick_def)
next
  case Timeout
  have "\<exists>w'. timeout k w = Inr w' \<and> state w' = state w \<and> quiet w'"
    using wf q by (rule frozen_timeout) (auto dest: P PR)
  with Timeout show ?thesis by simp
next
  case (FaceClick draws)
  with A show ?thesis by simp
qed

lemma frozen_run:
  assumes "run k A w es w'"
    and "wellFormed k w" and "quiet w"
    and "\<And>p. inb (board (state w)) p \<Longrightarrow> P (cell (board (state w)) p)"
    and "\<And>c. P c \<Longrightarrow> isRevealed c \<or> isFlagged c"
    and "\<And>v e. A v e \<Longrightarrow> revealOnly v e \<or> ((\<forall>c. P c \<longrightarrow> isRevealed c) \<and> noRestart v e)"
  shows "state w' = state w \<and> wellFormed k w' \<and> quiet w'"
  using assms
proof (induction rule: run.induct)
  case (stop w)
  then show ?case by simp
next
  case (go w e w1 es w2)
  from frozen_step[OF go.prems(1,2) go.hyps(2), of P] go.prems(3,4) go.prems(5)[OF go.hyps(1)] go.hyps(3)
  have s: "state w1 = state w" and q1: "quiet w1" by auto
  have wf1: "wellFormed k w1" using go.prems(1) go.hyps(2,3) by (rule step_wellFormed)
  have "state w2 = state w1 \<and> wellFormed k w2 \<and> quiet w2"
    using wf1 q1 go.prems(3-5) by (intro go.IH) (simp_all add: s)
  with s show ?case by simp
qed

text \<open>The step that sets \<open>isGameOver\<close>, and the timeout that sets \<open>isGameWon\<close>.\<close>

lemma flagToggleSet_isGameOver:
  assumes "flagToggleSet k s row col = Inr s'"
  shows "isGameOver s' = isGameOver s"
  using assms by (auto simp: flagToggleSet_def Let_def split: sum.splits if_splits)

lemma floodPost_flags:
  assumes "floodPost s xs s'"
  shows "isGameOver s' = isGameOver s" "isGameWon s' = isGameWon s" "flagCount s' = flagCount s"
proof -
  from assms have "s' = s\<lparr>board := board s', revealedCount := revealedCount s'\<rparr>"
    by (simp add: floodPost_def counted_def)
  then obtain b n where "s' = s\<lparr>board := b, revealedCount := n\<rparr>" by blast
  then show "isGameOver s' = isGameOver s" "isGameWon s' = isGameWon s" "flagCount s' = flagCount s"
    by simp_all
qed

lemma revealedCell_closure_declares:
  assumes r: "revealedCell_closure k seen s row col = Inr s'" and ib: "inb (board s) (row, col)"
  shows "\<not> isGameOver s \<Longrightarrow> isGameOver s' \<Longrightarrow> inb (board s') p \<Longrightarrow> isRevealed (cell (board s') p)"
    and "\<not> isGameWon s \<Longrightarrow> isGameWon s' \<Longrightarrow> inb (board s') p \<Longrightarrow>
         isRevealed (cell (board s') p) \<or> isFlagged (cell (board s') p)"
proof -
  show "isRevealed (cell (board s') p)" if "\<not> isGameOver s" "isGameOver s'" "inb (board s') p"
    using r ib
  proof (cases rule: revealedCell_closure_cases)
    case noop
    with that show ?thesis by simp
  next
    case mine
    from that(3) show ?thesis unfolding mine(4) by (simp add: cell_revealAll)
  next
    case win
    with that show ?thesis by (simp add: revealOne_def)
  next
    case flood
    from floodPost_flags(1)[OF recursiveSurroundCells_post[OF flood(6)]] that
    show ?thesis by (simp add: revealOne_def)
  next
    case plain
    with that show ?thesis by (simp add: revealOne_def)
  qed
  show "isRevealed (cell (board s') p) \<or> isFlagged (cell (board s') p)"
    if "\<not> isGameWon s" "isGameWon s'" "inb (board s') p"
    using r ib
  proof (cases rule: revealedCell_closure_cases)
    case noop
    with that show ?thesis by simp
  next
    case mine
    with that show ?thesis by (simp add: revealOne_def)
  next
    case win
    from that(3) show ?thesis unfolding win(5) by (auto simp: cell_map_map forceFlag_def)
  next
    case flood
    from floodPost_flags(2)[OF recursiveSurroundCells_post[OF flood(6)]] that
    show ?thesis by (simp add: revealOne_def)
  next
    case plain
    with that show ?thesis by (simp add: revealOne_def)
  qed
qed

lemma timeout_declares:
  assumes wf: "wellFormed k w" and t: "timeout k w = Inr w'"
  shows "\<not> isGameOver (state w) \<Longrightarrow> isGameOver (state w') \<Longrightarrow>
         inb (board (state w')) p \<Longrightarrow> isRevealed (cell (board (state w')) p)"
    and "\<not> isGameWon (state w) \<Longrightarrow> isGameWon (state w') \<Longrightarrow> inb (board (state w')) p \<Longrightarrow>
         isRevealed (cell (board (state w')) p) \<or> isFlagged (cell (board (state w')) p)"
proof -
  have "state w' = state w \<or>
        (\<exists>seen b row col. revealedCell_closure k seen ((state w)\<lparr>board := b\<rparr>) row col = Inr (state w') \<and>
           inb b (row, col))"
  proof (cases "timers w")
    case Nil
    with t show ?thesis by (simp add: timeout_def)
  next
    case (Cons x rest)
    obtain i row col where x: "x = (i, row, col)" by (cases x)
    note te = timeout_eq[OF wf Cons[unfolded x]]
    from te(5) obtain s' where
      s': "revealedCell_closure k (r_revealedCount (renders w ! i))
             ((state w)\<lparr>board := boards w ! r_board (renders w ! i)\<rparr>) row col = Inr s'" ..
    from t te(6) have "state w' = state w \<or> state w' = s'"
      by (auto simp: s' stateOf_def split: if_splits)
    with s' te(4) show ?thesis by blast
  qed
  then consider "state w' = state w"
    | seen b row col where
      "revealedCell_closure k seen ((state w)\<lparr>board := b\<rparr>) row col = Inr (state w')" "inb b (row, col)"
    by blast
  note c = this
  show "isRevealed (cell (board (state w')) p)"
    if "\<not> isGameOver (state w)" "isGameOver (state w')" "inb (board (state w')) p"
    using c
  proof cases
    case 1
    with that show ?thesis by simp
  next
    case 2
    from revealedCell_closure_declares(1)[OF 2(1)] 2(2) that show ?thesis by simp
  qed
  show "isRevealed (cell (board (state w')) p) \<or> isFlagged (cell (board (state w')) p)"
    if "\<not> isGameWon (state w)" "isGameWon (state w')" "inb (board (state w')) p"
    using c
  proof cases
    case 1
    with that show ?thesis by simp
  next
    case 2
    from revealedCell_closure_declares(2)[OF 2(1)] 2(2) that show ?thesis by simp
  qed
qed

lemma flagToggle_event_isGameOver:
  assumes "inb (board (state w)) (row, col)" and "flagToggle_event k w row col = Inr w'"
  shows "isGameOver (state w') = isGameOver (state w)"
proof -
  from flagToggleSet_returns[OF assms(1)] obtain s' where
    s': "flagToggleSet k (state w) row col = Inr s'" ..
  from assms(2) flagToggle_event_eq[OF assms(1), of k] have "state w' = state w \<or> state w' = s'"
    by (auto simp: s' stateOf_def split: if_splits)
  with flagToggleSet_isGameOver[OF s'] show ?thesis by auto
qed

lemma step_declares_loss:
  assumes wf: "wellFormed k w" and pos: "possible w e" and st: "step k w e = Some (Inr w')"
    and flip: "\<not> isGameOver (state w)" "isGameOver (state w')"
    and ib: "inb (board (state w')) p"
  shows "isRevealed (cell (board (state w')) p)"
proof (cases e)
  case (Click row col)
  from pos Click have i: "inb (board (state w)) (row, col)" by (simp add: inb_def)
  let ?w1 = "setClickCount w (length (renders w) - 1)
               (clickCount (renders w ! (length (renders w) - 1)) + 1)"
  from st Click have "state w' = state w \<or> flagToggle_event k ?w1 row col = Inr w'"
    by (auto simp: handleClick_def Let_def split: if_splits)
  then have "isGameOver (state w') = isGameOver (state w)"
    using flagToggle_event_isGameOver[of ?w1 row col k w'] i by auto
  with flip show ?thesis by simp
next
  case (RightClick row col)
  from pos RightClick have i: "inb (board (state w)) (row, col)" by (simp add: inb_def)
  from st RightClick flagToggle_event_isGameOver[OF i, of k w'] flip show ?thesis
    by (simp add: handleDesktopRightClick_def)
next
  case Timeout
  with st have "timeout k w = Inr w'" by simp
  from timeout_declares(1)[OF wf this flip ib] show ?thesis .
next
  case (FaceClick draws)
  with st flip show ?thesis
    by (auto simp: faceClick_def handleFaceClick_def split: option.splits sum.splits)
qed

section \<open>What the flood fill reveals\<close>

lemma adjacent8_surroundingCells:
  assumes "static k b" "inb b p" "inb b q" "adjacent8 p q"
  shows "q \<in> set (surroundingCells (cell b p))"
proof -
  have hs: "hasSize (GRID_SIZE_row k) (GRID_SIZE_col k) b" using assms(1) by (simp add: static_def)
  have "q \<in> set (surroundingCells_of k (fst p) (snd p))"
    using assms(3,4) hasSize_inb[OF hs, of q]
    by (cases q) (simp add: set_surroundingCells_of adjacent8_def)
  then show ?thesis using static_nbrs[OF assms(1,2)] by simp
qed

lemma surroundingCells_adjacent8:
  assumes "static k b" "inb b p" "q \<in> set (surroundingCells (cell b p))" "q \<noteq> p"
  shows "adjacent8 p q"
proof -
  from assms(3) have "q \<in> set (surroundingCells_of k (fst p) (snd p))"
    using static_nbrs[OF assms(1,2)] by simp
  with assms(4) show ?thesis
    by (cases q) (simp add: set_surroundingCells_of adjacent8_def)
qed

lemma fillChain_revealed:
  assumes cl: "closure b b'" and st: "static k b"
  shows "inb b z \<Longrightarrow> \<not> isRevealed (cell b z) \<Longrightarrow> isRevealed (cell b' z) \<Longrightarrow>
         fillChain b z qs \<Longrightarrow> \<forall>q\<in>set qs. isRevealed (cell b' q)"
proof (induction qs arbitrary: z)
  case Nil
  then show ?case by simp
next
  case (Cons q qs)
  from Cons.prems(4) have z0: "adjacentMines (cell b z) = 0" and adj: "adjacent8 z q"
    and iq: "inb b q" and oq: "\<not> isRevealed (cell b q)" "\<not> isFlagged (cell b q)" "\<not> isMine (cell b q)"
    and rest: "fillChain b q qs"
    by simp_all
  from closureD[OF cl Cons.prems(1-3) z0]
  have "covered b (surroundingCells (cell b z)) b'" .
  moreover have "q \<in> set (surroundingCells (cell b z))"
    using st Cons.prems(1) iq adj by (rule adjacent8_surroundingCells)
  moreover have "good b q" using iq oq by (simp add: good_def)
  ultimately have rq: "isRevealed (cell b' q)" by (auto simp: covered_def)
  from Cons.IH[OF iq oq(1) rq rest] rq show ?case by simp
qed

lemma fillChain_append:
  "fillChain b p (xs @ ys) \<longleftrightarrow> fillChain b p xs \<and> fillChain b (last (p # xs)) ys"
  by (induction xs arbitrary: p) auto

lemma fillChain_flood:
  assumes "sameBut floodStep b b'"
  shows "inb b p \<Longrightarrow> fillChain b' p qs \<Longrightarrow> fillChain b p qs"
proof (induction qs arbitrary: p)
  case Nil
  then show ?case by simp
next
  case (Cons q qs)
  from Cons.prems(2) have a: "adjacent8 p q" and z: "adjacentMines (cell b' p) = 0"
    and iq': "inb b' q"
    and o: "\<not> isRevealed (cell b' q)" "\<not> isFlagged (cell b' q)" "\<not> isMine (cell b' q)"
    and r: "fillChain b' q qs"
    by simp_all
  have iq: "inb b q" using iq' flood_inb[OF assms] by simp
  have zp: "adjacentMines (cell b p) = 0" using z flood_adj[OF assms Cons.prems(1)] by simp
  have fq: "floodStep (cell b q) (cell b' q)" using assms iq by (rule sameBut_cell)
  have oq: "\<not> isRevealed (cell b q)" "\<not> isFlagged (cell b q)" "\<not> isMine (cell b q)"
    using o fq floodStep_fields[OF fq] by (auto simp: floodStep_def)
  show ?case
    using Cons.IH[OF iq r] a iq oq zp by simp
qed

lemma opens_inb: "opens b p \<Longrightarrow> inb b p"
  by (simp add: opens_def good_def)

lemma opens_flood:
  assumes "sameBut floodStep b b'" "opens b' p"
  shows "opens b p"
proof -
  from assms(2) have i: "inb b p" using flood_inb[OF assms(1)] by (simp add: opens_def good_def)
  from assms(2) have "good b p" using flood_good[OF assms(1)] by (simp add: opens_def)
  moreover have "\<not> isRevealed (cell b p)"
    using assms(2) flood_rev[OF assms(1) i] by (auto simp: opens_def)
  ultimately show ?thesis by (simp add: opens_def)
qed

lemma reached_flood:
  assumes "sameBut floodStep b b'" "inb b p" "reached b' p q"
  shows "reached b p q"
  using assms(3) fillChain_flood[OF assms(1,2)] unfolding reached_def by blast

lemma reached_self: "reached b p p"
  unfolding reached_def by (rule exI[of _ "[]"]) simp

lemma reached_step:
  assumes "adjacentMines (cell b p) = 0" "adjacent8 p y" "opens b y" "reached b y q"
  shows "reached b p q"
proof -
  from assms(4) obtain qs where qs: "fillChain b y qs" "q = last (y # qs)"
    unfolding reached_def by blast
  from assms(1-3) qs(1) have "fillChain b p (y # qs)"
    by (simp add: opens_def good_def)
  moreover have "q = last (p # y # qs)" using qs(2) by simp
  ultimately show ?thesis unfolding reached_def by blast
qed

text \<open>
  Every cell that \<^verbatim>\<open>recursiveSurroundCells\<close> reveals is reached by a chain
  from an entry of the list that it reveals.
\<close>

lemma flood_only:
  "recursiveSurroundCells s xs = Inr s' \<Longrightarrow> static k (board s) \<Longrightarrow> inb (board s) q \<Longrightarrow>
   \<not> isRevealed (cell (board s) q) \<Longrightarrow> isRevealed (cell (board s') q) \<Longrightarrow>
   \<exists>x\<in>set xs. opens (board s) x \<and> reached (board s) x q"
proof (induction s xs arbitrary: s' rule: recursiveSurroundCells.induct)
  case (1 s)
  then show ?case by simp
next
  case (2 s x rest)
  let ?b = "board s"
  note st = "2.prems"(2) and iq = "2.prems"(3) and nq = "2.prems"(4) and rq = "2.prems"(5)
  from "2.prems"(1) obtain c where c: "cellAt ?b (fst x) (snd x) = Inr c"
    by (auto split: sum.splits)
  then have ib: "inb ?b x" and ceq: "c = cell ?b x"
    by (simp_all add: cellAt_Inr inb_def cell_def)
  show ?case
  proof (cases "\<not> isFlagged c \<and> \<not> isMine c \<and> \<not> isRevealed c")
    case False
    with c "2.prems"(1) have "recursiveSurroundCells s rest = Inr s'" by simp
    from "2.IH"(3)[OF c False this st iq nq rq] show ?thesis by auto
  next
    case True
    define s1 where
      "s1 = s\<lparr>board := setCell ?b (fst x) (snd x) (c\<lparr>isRevealed := True\<rparr>),
               revealedCount := revealedCount s + 1\<rparr>"
    have b1: "board s1 = setCell ?b (fst x) (snd x) ((cell ?b x)\<lparr>isRevealed := True\<rparr>)"
      by (simp add: s1_def ceq)
    from True have open_x: "\<not> isFlagged (cell ?b x)" "\<not> isMine (cell ?b x)" "\<not> isRevealed (cell ?b x)"
      by (simp_all add: ceq)
    then have ox: "opens ?b x" using ib by (simp add: opens_def good_def)
    note rs = reveal_step[OF ib open_x, folded b1]
    from c True "2.prems"(1) obtain s2 where
      s2: "(if adjacentMines c = 0 then recursiveSurroundCells s1 (surroundingCells c)
            else Inr s1) = Inr s2"
      and rest: "recursiveSurroundCells s2 rest = Inr s'"
      by (auto simp: s1_def Let_def split: sum.splits if_splits)
    have sb1: "sameBut floodStep ?b (board s1)" by (rule rs(1))
    have sb2: "sameBut floodStep (board s1) (board s2)"
    proof (cases "adjacentMines c = 0")
      case True
      with s2 have "recursiveSurroundCells s1 (surroundingCells c) = Inr s2" by simp
      from recursiveSurroundCells_post[OF this] show ?thesis by (simp add: floodPost_def)
    next
      case False
      with s2 show ?thesis by (auto simp: sameBut_refl floodStep_refl)
    qed
    have sb12: "sameBut floodStep ?b (board s2)" using sb1 sb2 by (rule flood_trans)
    have st1: "static k (board s1)"
      using sameBut_mono[OF sb1 keeps_floodStep] st by (rule static_keeps)
    have st2: "static k (board s2)"
      using sameBut_mono[OF sb12 keeps_floodStep] st by (rule static_keeps)
    have iq1: "inb (board s1) q" and iq2: "inb (board s2) q"
      using iq flood_inb[OF sb1] flood_inb[OF sb12] by simp_all
    show ?thesis
    proof (cases "q = x")
      case True
      with ox reached_self[of ?b x] show ?thesis by auto
    next
      case qx: False
      have nq1: "\<not> isRevealed (cell (board s1) q)" using rs(3)[OF iq qx] nq by simp
      show ?thesis
      proof (cases "isRevealed (cell (board s2) q)")
        case r2: True
        have z: "adjacentMines c = 0"
        proof (rule ccontr)
          assume "adjacentMines c \<noteq> 0"
          with s2 have "s2 = s1" by simp
          with r2 nq1 show False by simp
        qed
        with s2 have "recursiveSurroundCells s1 (surroundingCells c) = Inr s2" by simp
        from "2.IH"(1)[OF c True s1_def z this st1 iq1 nq1 r2] obtain y where
          y: "y \<in> set (surroundingCells c)" "opens (board s1) y" "reached (board s1) y q"
          by blast
        from y(2) rs(2) have yx: "y \<noteq> x" by (auto simp: opens_def)
        have oy: "opens ?b y" using sb1 y(2) by (rule opens_flood)
        have adj: "adjacent8 x y"
          using st ib y(1) yx unfolding ceq by (rule surroundingCells_adjacent8)
        have "reached ?b y q" using sb1 opens_inb[OF oy] y(3) by (rule reached_flood)
        with z adj oy have "reached ?b x q" unfolding ceq by (rule reached_step)
        with ox show ?thesis by auto
      next
        case r2: False
        from "2.IH"(2)[OF c True s1_def s2 rest st2 iq2 r2 rq] obtain z where
          z: "z \<in> set rest" "opens (board s2) z" "reached (board s2) z q"
          by blast
        have oz: "opens ?b z" using sb12 z(2) by (rule opens_flood)
        have "reached ?b z q" using sb12 opens_inb[OF oz] z(3) by (rule reached_flood)
        with z(1) oz show ?thesis by auto
      qed
    qed
  qed
qed

text \<open>
  The filling branch of \<^verbatim>\<open>revealedCell\<close>: what is revealed afterwards is
  what was revealed before and what a chain from the cell reaches; nothing else
  in a cell changes.
\<close>

lemma revealedCell_closure_fill:
  assumes st: "static k (board s)" and ib: "inb (board s) (row, col)"
    and nr: "\<not> isRevealed (cell (board s) (row, col))" and nf: "\<not> isFlagged (cell (board s) (row, col))"
    and nm: "\<not> isMine (cell (board s) (row, col))"
    and z: "adjacentMines (cell (board s) (row, col)) = 0"
    and nw: "seen \<noteq> winThreshold k - 1"
    and r: "revealedCell_closure k seen s row col = Inr s'"
  shows "sameBut floodStep (board s) (board s')"
    and "inb (board s) q \<Longrightarrow>
         isRevealed (cell (board s') q) \<longleftrightarrow>
           isRevealed (cell (board s) q) \<or> reached (board s) (row, col) q"
    and "revealedCount s' + int (countCells isRevealed (board s)) =
         revealedCount s + int (countCells isRevealed (board s'))"
    and "flagCount s' = flagCount s" and "isGameWon s' = isGameWon s"
    and "isGameOver s' = isGameOver s"
proof -
  let ?p = "(row, col)" and ?b = "board s"
  let ?s1 = "revealOne s (row, col)"
  have b1: "board ?s1 = setCell ?b (fst ?p) (snd ?p) ((cell ?b ?p)\<lparr>isRevealed := True\<rparr>)"
    by (simp add: revealOne_def)
  note rs = reveal_step[OF ib nf nm nr, folded b1]
  from r ib nr nf nm z nw have f: "recursiveSurroundCells ?s1 (surroundingCells (cell ?b ?p)) = Inr s'"
    by (cases rule: revealedCell_closure_cases) simp_all
  note post = recursiveSurroundCells_post[OF f]
  then have sb2: "sameBut floodStep (board ?s1) (board s')"
    and cov: "covered (board ?s1) (surroundingCells (cell ?b ?p)) (board s')"
    and cl2: "closure (board ?s1) (board s')"
    and cnt: "counted ?s1 s'"
    by (simp_all add: floodPost_def)
  show sb: "sameBut floodStep ?b (board s')" using rs(1) sb2 by (rule flood_trans)
  have cl: "closure ?b (board s')"
  proof (rule closure_step[OF rs(1) sb2])
    show "sameBut floodStep (board s') (board s')" by (rule sameBut_refl) (rule floodStep_refl)
    show "cell (board ?s1) z = cell ?b z" if "inb ?b z" "z \<noteq> ?p" for z using that by (rule rs(3))
    show "covered (board ?s1) (surroundingCells (cell ?b ?p)) (board s')" by (rule cov)
    show "closure (board ?s1) (board s')" by (rule cl2)
    show "closure (board s') (board s')" by (rule closure_refl)
  qed
  have rp: "isRevealed (cell (board s') ?p)"
    using flood_rev[OF sb2 _ rs(2)] ib sameBut_inb[OF rs(1)] by simp
  have st1: "static k (board ?s1)"
    using sameBut_mono[OF rs(1) keeps_floodStep] st by (rule static_keeps)
  show "isRevealed (cell (board s') q) \<longleftrightarrow> isRevealed (cell ?b q) \<or> reached ?b ?p q"
    if iq: "inb ?b q"
  proof
    assume rq: "isRevealed (cell (board s') q)"
    show "isRevealed (cell ?b q) \<or> reached ?b ?p q"
    proof (cases "isRevealed (cell ?b q) \<or> q = ?p")
      case True
      then show ?thesis using reached_self[of ?b ?p] by auto
    next
      case False
      then have qp: "q \<noteq> ?p" and nq: "\<not> isRevealed (cell ?b q)" by simp_all
      have iq1: "inb (board ?s1) q" using iq flood_inb[OF rs(1)] by simp
      have nq1: "\<not> isRevealed (cell (board ?s1) q)" using rs(3)[OF iq qp] nq by simp
      from flood_only[OF f st1 iq1 nq1 rq] obtain y where
        y: "y \<in> set (surroundingCells (cell ?b ?p))" "opens (board ?s1) y" "reached (board ?s1) y q"
        by blast
      from y(2) rs(2) have yp: "y \<noteq> ?p" by (auto simp: opens_def)
      have oy: "opens ?b y" using rs(1) y(2) by (rule opens_flood)
      have adj: "adjacent8 ?p y" using st ib y(1) yp by (rule surroundingCells_adjacent8)
      have "reached ?b y q" using rs(1) opens_inb[OF oy] y(3) by (rule reached_flood)
      with z adj oy have "reached ?b ?p q" by (rule reached_step)
      then show ?thesis ..
    qed
  next
    assume "isRevealed (cell ?b q) \<or> reached ?b ?p q"
    then show "isRevealed (cell (board s') q)"
    proof
      assume "isRevealed (cell ?b q)"
      with flood_rev[OF sb iq] show ?thesis by simp
    next
      assume "reached ?b ?p q"
      then obtain qs where qs: "fillChain ?b ?p qs" "q = last (?p # qs)"
        unfolding reached_def by blast
      show ?thesis
      proof (cases qs)
        case Nil
        with qs(2) rp show ?thesis by simp
      next
        case (Cons a as)
        from fillChain_revealed[OF cl st ib nr rp qs(1)] have "\<forall>x\<in>set qs. isRevealed (cell (board s') x)" .
        moreover have "q \<in> set qs" using qs(2) Cons by simp
        ultimately show ?thesis by blast
      qed
    qed
  qed
  have c1: "countCells isRevealed (board ?s1) = countCells isRevealed ?b + 1" by (rule rs(4))
  have rc1: "revealedCount ?s1 = revealedCount s + 1" by (simp add: revealOne_def)
  from cnt have "revealedCount s' + int (countCells isRevealed (board ?s1)) =
       revealedCount ?s1 + int (countCells isRevealed (board s'))"
    by (simp add: counted_def)
  then show "revealedCount s' + int (countCells isRevealed ?b) =
         revealedCount s + int (countCells isRevealed (board s'))"
    using c1 rc1 by simp
  from floodPost_flags[OF post] show "flagCount s' = flagCount s" "isGameWon s' = isGameWon s"
    "isGameOver s' = isGameOver s"
    by (simp_all add: revealOne_def)
qed

section \<open>The example games\<close>

text \<open>
  The states and worlds of the example games are reachable, and each step
  returns the next one; neither needs the boards to be computed. The values read
  off the boards are computed from the definitions.
\<close>

lemma mount_mountedWorld:
  assumes "inRange k draws" and "NUM_MINES k \<le> card (set draws)"
  shows "mount k draws = Some (Inr (mountedWorld k draws))"
    and "reachable k (mountedWorld k draws)"
proof -
  from useEffect_mount_mounted[OF assms] obtain w where w: "mount k draws = Some (Inr w)"
    by (simp add: mount_def)
  then show "mount k draws = Some (Inr (mountedWorld k draws))"
    by (simp add: mountedWorld_def)
  with w show "reachable k (mountedWorld k draws)"
    by (auto intro: reachable.mounted)
qed

lemma step_after:
  assumes r: "reachable k w" and g: "onGrid k e"
  shows "possible w e" and "step k w e = Some (Inr (after k w e))"
    and "reachable k (after k w e)"
proof -
  have wf: "wellFormed k w" using r by (rule reachable_wellFormed)
  have inb: "inb (board (state w)) (row, col)"
    if "row < GRID_SIZE_row k" "col < GRID_SIZE_col k" for row col
    using that static_inb[OF wellFormed_static_state[OF wf]] by simp
  show p: "possible w e"
  proof (cases e)
    case (Click row col)
    with g inb[of row col] show ?thesis by (simp add: inb_def)
  next
    case (RightClick row col)
    with g inb[of row col] show ?thesis by (simp add: inb_def)
  qed simp_all
  have "\<exists>w'. step k w e = Some (Inr w')"
  proof (cases e)
    case (FaceClick draws)
    with g faceClick_returns[of k draws w] show ?thesis by simp
  next
    case (Click row col)
    with step_returns[OF wf p] show ?thesis by simp
  next
    case (RightClick row col)
    with step_returns[OF wf p] show ?thesis by simp
  next
    case Timeout
    with step_returns[OF wf p] show ?thesis by simp
  qed
  then show s: "step k w e = Some (Inr (after k w e))" by (auto simp: after_def)
  from r p s show "reachable k (after k w e)" by (rule reachable.event)
qed

lemma reachable_play:
  "reachable k w \<Longrightarrow> list_all (onGrid k) es \<Longrightarrow> reachable k (play k w es)"
proof (induction es arbitrary: w)
  case Nil
  then show ?case by (simp add: play_def)
next
  case (Cons e es)
  from Cons.prems have "reachable k (after k w e)" by (simp add: step_after(3))
  from Cons.IH[OF this] Cons.prems(2) show ?case by (simp add: play_def)
qed

lemma draws_ok:
  "inRange constants draws_bottom" "NUM_MINES constants \<le> card (set draws_bottom)"
  "inRange constants draws_corridor" "NUM_MINES constants \<le> card (set draws_corridor)"
  "inRange constants draws_corner" "NUM_MINES constants \<le> card (set draws_corner)"
  "inRange constants draws_pockets" "NUM_MINES constants \<le> card (set draws_pockets)"
  "inRange tiny_config [(0, 1)]" "NUM_MINES tiny_config \<le> card (set [(0, 1)])"
  "inRange row_config [(0, 3)]" "NUM_MINES row_config \<le> card (set [(0, 3)])"
  by (simp_all add: inRange_def constants_def draws_bottom_def draws_corridor_def draws_corner_def
      draws_pockets_def tiny_config_def row_config_def)

lemma grid8:
  "n < 8 \<Longrightarrow> n < GRID_SIZE_row constants" "n < 8 \<Longrightarrow> n < GRID_SIZE_col constants"
  by (simp_all add: constants_def)

lemma onGrid8:
  "row < 8 \<Longrightarrow> col < 8 \<Longrightarrow> onGrid constants (Click row col)"
  "row < 8 \<Longrightarrow> col < 8 \<Longrightarrow> onGrid constants (RightClick row col)"
  "onGrid k Timeout"
  "onGrid constants (FaceClick draws_bottom)"
  by (simp_all add: grid8 draws_ok)

subsection \<open>The game of \<open>draws_bottom\<close>\<close>

lemma bottom0_step: "useEffect_mount constants draws_bottom = Some (Inr bottom0)"
  unfolding bottom0_def by (intro useEffect_mount_mounted draws_ok)

lemma static_bottom0: "static constants (board bottom0)"
  unfolding bottom0_def by (intro static_mounted draws_ok)

lemma bottom1_step: "revealedCell constants bottom0 0 0 = Inr bottom1"
  unfolding bottom1_def
  by (intro revealedCell_stateOf static_bottom0 grid8) simp_all

lemma static_bottom1: "static constants (board bottom1)"
  unfolding bottom1_def
  by (intro revealedCell_stateOf static_bottom0 grid8) simp_all

lemma bottom2_step: "revealedCell constants bottom1 7 0 = Inr bottom2"
  unfolding bottom2_def
  by (intro revealedCell_stateOf static_bottom1 grid8) simp_all

lemma bottom_values:
  "revealedCount bottom1 = 54" "winThreshold constants = 54"
  "countCells (\<lambda>c. \<not> isMine c \<and> \<not> isRevealed c) (board bottom1) = 0"
  "\<not> isGameWon bottom1" "countCells isFlagged (board bottom1) = 0"
  "isGameOver bottom2" "\<not> isGameWon bottom2"
  by code_simp+

subsection \<open>Steps of the worlds\<close>

lemma trace_step:
  assumes "reachable k w" and "w' = after k w e" and "onGrid k e"
  shows "step k w e = Some (Inr w')" and "reachable k w'"
  using step_after(2,3)[OF assms(1,3)] assms(2) by simp_all

lemma run_play:
  "reachable k w \<Longrightarrow> list_all (onGrid k) es \<Longrightarrow> list_all (noRestart w0) es \<Longrightarrow>
   run k noRestart w es (play k w es)"
proof (induction es arbitrary: w)
  case Nil
  then show ?case by (simp add: play_def run.stop)
next
  case (Cons e es)
  from Cons.prems have g: "onGrid k e" and n: "noRestart w e" by (cases e; simp)+
  note sa = step_after[OF Cons.prems(1) g]
  from Cons.IH[OF sa(3)] Cons.prems(2,3) have "run k noRestart (after k w e) es (play k (after k w e) es)"
    by simp
  with n sa(1,2) have "run k noRestart w (e # es) (play k (after k w e) es)"
    by (rule run.go)
  then show ?case by (simp add: play_def)
qed

subsection \<open>The small worlds\<close>

lemma onGrid_tiny:
  "onGrid tiny_config (Click 0 0)" "onGrid tiny_config (Click 0 1)"
  "onGrid tiny_config (RightClick 0 0)" "onGrid tiny_config (RightClick 0 1)"
  by (simp_all add: tiny_config_def)

lemma tiny_steps:
  "reachable tiny_config tiny_world"
  "reachable tiny_config tiny_pending"
  "step tiny_config tiny_pending Timeout = Some (Inr tiny_lost)"
  "reachable tiny_config tiny_lost"
  "reachable tiny_config tiny_safe_pending"
  "step tiny_config tiny_safe_pending Timeout = Some (Inr tiny_won)"
  "reachable tiny_config tiny_won"
  "step tiny_config tiny_won (Click 0 1) = Some (Inr tiny_won_pressed)"
  "reachable tiny_config tiny_won_pressed"
  "step tiny_config tiny_won_pressed Timeout = Some (Inr tiny_won_later)"
proof -
  show r0: "reachable tiny_config tiny_world"
    unfolding tiny_world_def by (intro mount_mountedWorld draws_ok)
  note t1 = trace_step[OF r0 tiny_pending_def onGrid_tiny(2)]
  show r1: "reachable tiny_config tiny_pending" by (rule t1(2))
  note t2 = trace_step[OF r1 tiny_lost_def onGrid8(3)]
  show "step tiny_config tiny_pending Timeout = Some (Inr tiny_lost)" by (rule t2(1))
  show "reachable tiny_config tiny_lost" by (rule t2(2))
  note t3 = trace_step[OF r0 tiny_safe_pending_def onGrid_tiny(1)]
  show r3: "reachable tiny_config tiny_safe_pending" by (rule t3(2))
  note t4 = trace_step[OF r3 tiny_won_def onGrid8(3)]
  show "step tiny_config tiny_safe_pending Timeout = Some (Inr tiny_won)" by (rule t4(1))
  show r4: "reachable tiny_config tiny_won" by (rule t4(2))
  note t5 = trace_step[OF r4 tiny_won_pressed_def onGrid_tiny(2)]
  show "step tiny_config tiny_won (Click 0 1) = Some (Inr tiny_won_pressed)" by (rule t5(1))
  show r5: "reachable tiny_config tiny_won_pressed" by (rule t5(2))
  note t6 = trace_step[OF r5 tiny_won_later_def onGrid8(3)]
  show "step tiny_config tiny_won_pressed Timeout = Some (Inr tiny_won_later)" by (rule t6(1))
qed

lemma reachable_row_world: "reachable row_config row_world"
  unfolding row_world_def by (intro mount_mountedWorld draws_ok)

subsection \<open>The games of \<open>draws_corridor\<close>\<close>

lemma corridor_steps:
  "reachable constants corridor0"
  "reachable constants corridor6"
  "step constants corridor6 (Click 0 0) = Some (Inr corridor7)"
  "step constants corridor7 Timeout = Some (Inr corridor8)"
  "reachable constants flagged1"
  "step constants flagged1 (Click 0 0) = Some (Inr flagged2)"
  "step constants flagged2 Timeout = Some (Inr flagged3)"
proof -
  show r0: "reachable constants corridor0"
    unfolding corridor0_def by (intro mount_mountedWorld draws_ok)
  have g: "onGrid constants (RightClick 0 0)" "onGrid constants (RightClick 0 2)"
    "onGrid constants (Click 0 1)" "onGrid constants (Click 0 0)"
    "onGrid constants (RightClick 0 1)"
    by (simp_all add: constants_def)
  note t1 = trace_step[OF r0 corridor1_def g(1)]
  note t2 = trace_step[OF t1(2) corridor2_def g(2)]
  note t3 = trace_step[OF t2(2) corridor3_def g(3)]
  note t4 = trace_step[OF t3(2) corridor4_def onGrid8(3)]
  note t5 = trace_step[OF t4(2) corridor5_def g(1)]
  note t6 = trace_step[OF t5(2) corridor6_def g(2)]
  show r6: "reachable constants corridor6" by (rule t6(2))
  note t7 = trace_step[OF r6 corridor7_def g(4)]
  show "step constants corridor6 (Click 0 0) = Some (Inr corridor7)" by (rule t7(1))
  note t8 = trace_step[OF t7(2) corridor8_def onGrid8(3)]
  show "step constants corridor7 Timeout = Some (Inr corridor8)" by (rule t8(1))
  note f1 = trace_step[OF r0 flagged1_def g(5)]
  show f1r: "reachable constants flagged1" by (rule f1(2))
  note f2 = trace_step[OF f1r flagged2_def g(4)]
  show "step constants flagged1 (Click 0 0) = Some (Inr flagged2)" by (rule f2(1))
  note f3 = trace_step[OF f2(2) flagged3_def onGrid8(3)]
  show "step constants flagged2 Timeout = Some (Inr flagged3)" by (rule f3(1))
qed

lemma corridor6_values:
  "let b = board (state corridor6) in
     \<not> isRevealed (cell b (0, 0)) \<and> \<not> isFlagged (cell b (0, 0)) \<and>
     adjacentMines (cell b (0, 0)) = 0 \<and> \<not> isMine (cell b (0, 0)) \<and>
     countCells isFlagged b = 0 \<and> zeroChain b (0, 0) [(0, 1), (0, 2)]"
  by code_simp+

lemma corridor8_values:
  "let b = board (state corridor8) in
     isRevealed (cell b (0, 0)) \<and> \<not> isRevealed (cell b (0, 2))"
  by code_simp+

lemma flagged1_values:
  "let b = board (state flagged1) in
     \<not> isRevealed (cell b (0, 0)) \<and> \<not> isFlagged (cell b (0, 0)) \<and>
     adjacentMines (cell b (0, 0)) = 0 \<and> \<not> isMine (cell b (0, 0)) \<and>
     isFlagged (cell b (0, 1)) \<and> zeroChain b (0, 0) [(0, 1), (0, 2)]"
  by code_simp+

lemma flagged3_values:
  "let b = board (state flagged3) in
     isRevealed (cell b (0, 0)) \<and> \<not> isRevealed (cell b (0, 1)) \<and> \<not> isRevealed (cell b (0, 2))"
  by code_simp+

subsection \<open>The games of \<open>draws_corner\<close>\<close>

lemma corner_steps:
  "reachable constants corner0"
  "reachable constants corner4"
  "step constants corner4 (RightClick 0 1) = Some (Inr corner5)"
  "mount constants draws_corner = Some (Inr corner0)"
  "step constants corner0 (RightClick 0 1) = Some (Inr restart1)"
  "step constants restart1 (Click 0 0) = Some (Inr restart2)"
  "step constants restart2 (FaceClick draws_bottom) = Some (Inr restart3)"
  "step constants restart3 Timeout = Some (Inr restart4)"
  "step constants restart4 (RightClick 0 1) = Some (Inr restart5)"
  "reachable constants overrun3"
  "step constants overrun3 Timeout = Some (Inr overrun4)"
  "reachable constants overrun4"
  "step constants overrun4 Timeout = Some (Inr overrun5)"
proof -
  show "mount constants draws_corner = Some (Inr corner0)"
    unfolding corner0_def by (intro mount_mountedWorld draws_ok)
  show r0: "reachable constants corner0"
    unfolding corner0_def by (intro mount_mountedWorld draws_ok)
  have g: "onGrid constants (Click 7 7)" "onGrid constants (Click 0 0)"
    "onGrid constants (RightClick 0 1)" "onGrid constants (Click 0 1)"
    by (simp_all add: constants_def)
  note t1 = trace_step[OF r0 corner1_def g(1)]
  note t2 = trace_step[OF t1(2) corner2_def onGrid8(3)]
  note t3 = trace_step[OF t2(2) corner3_def g(2)]
  note t4 = trace_step[OF t3(2) corner4_def onGrid8(3)]
  show r4: "reachable constants corner4" by (rule t4(2))
  note t5 = trace_step[OF r4 corner5_def g(3)]
  show "step constants corner4 (RightClick 0 1) = Some (Inr corner5)" by (rule t5(1))
  note s1 = trace_step[OF r0 restart1_def g(3)]
  show "step constants corner0 (RightClick 0 1) = Some (Inr restart1)" by (rule s1(1))
  note s2 = trace_step[OF s1(2) restart2_def g(2)]
  show "step constants restart1 (Click 0 0) = Some (Inr restart2)" by (rule s2(1))
  note s3 = trace_step[OF s2(2) restart3_def onGrid8(4)]
  show "step constants restart2 (FaceClick draws_bottom) = Some (Inr restart3)" by (rule s3(1))
  note s4 = trace_step[OF s3(2) restart4_def onGrid8(3)]
  show "step constants restart3 Timeout = Some (Inr restart4)" by (rule s4(1))
  note s5 = trace_step[OF s4(2) restart5_def g(3)]
  show "step constants restart4 (RightClick 0 1) = Some (Inr restart5)" by (rule s5(1))
  note o1 = trace_step[OF r0 overrun1_def g(4)]
  note o2 = trace_step[OF o1(2) overrun2_def onGrid8(4)]
  note o3 = trace_step[OF o2(2) overrun3_def g(2)]
  show r3: "reachable constants overrun3" by (rule o3(2))
  note o4 = trace_step[OF r3 overrun4_def onGrid8(3)]
  show "step constants overrun3 Timeout = Some (Inr overrun4)" by (rule o4(1))
  show r4': "reachable constants overrun4" by (rule o4(2))
  note o5 = trace_step[OF r4' overrun5_def onGrid8(3)]
  show "step constants overrun4 Timeout = Some (Inr overrun5)" by (rule o5(1))
qed

lemma corner4_values:
  "let s = state corner4 in
     isGameWon s \<and> flagCount s = 10 \<and> isFlagged (cell (board s) (0, 1))"
  by code_simp+

lemma corner5_values:
  "let s = state corner5 in flagCount s = 9 \<and> \<not> isFlagged (cell (board s) (0, 1))"
  by code_simp+

lemma restart1_values:
  "let s = state restart1 in
     flagCount s = 1 \<and> countCells isFlagged (board s) = 1 \<and> isFlagged (cell (board s) (0, 1))"
  by code_simp+

lemma restart3_values:
  "let s = state restart3 in flagCount s = 0 \<and> countCells isFlagged (board s) = 0"
  by code_simp+

lemma restart4_values:
  "let s = state restart4 in
     flagCount s = 0 \<and> countCells isFlagged (board s) = 1 \<and> isFlagged (cell (board s) (0, 1))"
  by code_simp+

lemma restart5_values:
  "let s = state restart5 in flagCount s = - 1 \<and> countCells isFlagged (board s) = 0"
  by code_simp+

lemma overrun3_values:
  "let s = state overrun3 in \<not> isGameOver s"
  by code_simp+

lemma overrun4_values:
  "let s = state overrun4 in
     isGameOver s \<and> revealedCount s = 1 \<and> countCells (\<lambda>c. \<not> isRevealed c) (board s) = 0"
  by code_simp+

lemma overrun5_values:
  "let s = state overrun5 in
     isGameOver s \<and> revealedCount s = 55 \<and> countCells (\<lambda>c. \<not> isRevealed c) (board s) = 10"
  by code_simp+

subsection \<open>The game of \<open>draws_pockets\<close>\<close>

lemma pockets_steps:
  "mount constants draws_pockets = Some (Inr pockets0)"
  "step constants pockets0 (Click 7 7) = Some (Inr pockets1)"
  "step constants pockets1 Timeout = Some (Inr pockets2)"
  "step constants pockets2 (Click 0 0) = Some (Inr pockets3)"
  "step constants pockets3 (RightClick 0 1) = Some (Inr pockets4)"
  "step constants pockets4 (Click 0 7) = Some (Inr pockets5)"
  "step constants pockets5 Timeout = Some (Inr pockets6)"
  "step constants pockets6 Timeout = Some (Inr pockets7)"
proof -
  show "mount constants draws_pockets = Some (Inr pockets0)"
    unfolding pockets0_def by (intro mount_mountedWorld draws_ok)
  have r0: "reachable constants pockets0"
    unfolding pockets0_def by (intro mount_mountedWorld draws_ok)
  have g: "onGrid constants (Click 7 7)" "onGrid constants (Click 0 0)"
    "onGrid constants (RightClick 0 1)" "onGrid constants (Click 0 7)"
    by (simp_all add: constants_def)
  note t1 = trace_step[OF r0 pockets1_def g(1)]
  show "step constants pockets0 (Click 7 7) = Some (Inr pockets1)" by (rule t1(1))
  note t2 = trace_step[OF t1(2) pockets2_def onGrid8(3)]
  show "step constants pockets1 Timeout = Some (Inr pockets2)" by (rule t2(1))
  note t3 = trace_step[OF t2(2) pockets3_def g(2)]
  show "step constants pockets2 (Click 0 0) = Some (Inr pockets3)" by (rule t3(1))
  note t4 = trace_step[OF t3(2) pockets4_def g(3)]
  show "step constants pockets3 (RightClick 0 1) = Some (Inr pockets4)" by (rule t4(1))
  note t5 = trace_step[OF t4(2) pockets5_def g(4)]
  show "step constants pockets4 (Click 0 7) = Some (Inr pockets5)" by (rule t5(1))
  note t6 = trace_step[OF t5(2) pockets6_def onGrid8(3)]
  show "step constants pockets5 Timeout = Some (Inr pockets6)" by (rule t6(1))
  note t7 = trace_step[OF t6(2) pockets7_def onGrid8(3)]
  show "step constants pockets6 Timeout = Some (Inr pockets7)" by (rule t7(1))
qed

lemma pockets6_values:
  "let w = pockets6 in
     revealedCount (state w) = 53 \<and> timers w = [(2, 0, 7)] \<and>
     r_revealedCount (renders w ! 2) = 52 \<and>
     countCells (\<lambda>c. \<not> isMine c \<and> \<not> isRevealed c) (board (state w)) = 1 \<and>
     \<not> isMine (cell (board (state w)) (0, 7)) \<and> \<not> isRevealed (cell (board (state w)) (0, 7)) \<and>
     \<not> isFlagged (cell (board (state w)) (0, 7))"
  by code_simp+

lemma pockets7_values:
  "let s = state pockets7 in
     revealedCount s = 54 \<and> isRevealed (cell (board s) (0, 7)) \<and>
     countCells (\<lambda>c. \<not> isMine c \<and> \<not> isRevealed c) (board s) = 0 \<and>
     \<not> isGameWon s \<and> \<not> isGameOver s \<and>
     countCells (\<lambda>c. \<not> isRevealed c \<and> \<not> isFlagged c) (board s) = 9"
  by code_simp+

section \<open>The claims\<close>

subsection \<open>C1\<close>

text \<open>
  Claim C1. In a board that \<^verbatim>\<open>initializeBoard\<close> has produced, the field
  \<open>adjacentMines\<close> of every cell that is not a mine is the number of mines among
  the up to eight positions around it that lie on the grid (\<open>neighbors_spec\<close>,
  written from the specification), and also the number of mines among the
  entries of the cell's own \<open>surroundingCells\<close> list.
\<close>

theorem adjacentMines_generated:
  assumes "initializeBoard k draws = Some (Inr b)"
    and "inb b p" and "\<not> isMine (cell b p)"
  shows "adjacentMines (cell b p) = mineCount b (neighbors_spec k p) \<and>
         adjacentMines (cell b p) = mineCount b (surroundingCells (cell b p))"
proof -
  have "{q \<in> set (surroundingCells_of k (fst p) (snd p)). isMine (cell b q)} =
        {q \<in> set (neighbors_spec k p). isMine (cell b q)}"
    using assms(3) by (auto simp: set_neighbors_spec)
  then have "mineCount b (surroundingCells_of k (fst p) (snd p)) = mineCount b (neighbors_spec k p)"
    by (simp add: mineCount_card distinct_neighbors_spec distinct_surroundingCells_of)
  then show ?thesis
    using initializeBoard_Inr(4,5)[OF assms(1,2)] assms(3) by simp
qed

theorem adjacentMines_generated_witness:
  "initializeBoard small_config [(0, 0), (0, 0), (1, 2)] = Some (Inr small_board) \<and>
   inb small_board (0, 1) \<and> \<not> isMine (cell small_board (0, 1)) \<and>
   adjacentMines (cell small_board (0, 1)) = mineCount small_board (neighbors_spec small_config (0, 1)) \<and>
   adjacentMines (cell small_board (0, 1)) = 2"
proof -
  have 1: "initializeBoard small_config [(0, 0), (0, 0), (1, 2)] = Some (Inr small_board)"
    unfolding small_board_def small_config_def by code_simp
  have 2: "inb small_board (0, 1)" unfolding small_board_def small_config_def by code_simp
  have 3: "\<not> isMine (cell small_board (0, 1))" unfolding small_board_def small_config_def by code_simp
  have 4: "adjacentMines (cell small_board (0, 1)) = 2" unfolding small_board_def small_config_def by code_simp
  from adjacentMines_generated[OF 1 2 3] 1 2 3 4 show ?thesis by simp
qed

subsection \<open>C2\<close>

text \<open>
  Claim C2, as amended. Take any board of a reachable world, the one on screen
  or an older one, and on it an unrevealed, unflagged cell that is not a mine
  and has no adjacent mines. Let \<^verbatim>\<open>revealedCell\<close> run on it, in a render that
  has not read the value \<open>rows * cols - numMines - 1\<close> from
  \<^verbatim>\<open>revealedCount\<close> (with that value the handler takes its winning branch
  and does not fill). It returns, and the cells revealed afterwards are exactly
  the cells revealed before, the cell itself, and the cells at the end of a chain
  that starts at it: a chain goes from a cell without adjacent mines to one of
  its eight neighbours that was unrevealed, unflagged and not a mine before the
  click. So the fill covers the zero region as far as it can be walked through
  cells that were unrevealed and unflagged, and the numbered cells on its
  border, and nothing else. No cell changes in anything but \<open>isRevealed\<close>, and
  mines and flagged cells keep their \<open>isRevealed\<close>.
\<close>

theorem flood_fill_region:
  assumes "reachable k w" and "board s \<in> set (boards w)"
    and "inb (board s) (row, col)"
    and "\<not> isRevealed (cell (board s) (row, col))" and "\<not> isFlagged (cell (board s) (row, col))"
    and "\<not> isMine (cell (board s) (row, col))" and "adjacentMines (cell (board s) (row, col)) = 0"
    and "seen \<noteq> winThreshold k - 1"
  shows "\<exists>s'. revealedCell_closure k seen s row col = Inr s' \<and>
           (\<forall>q. inb (board s') q = inb (board s) q) \<and>
           (\<forall>q. inb (board s) q \<longrightarrow>
              (isRevealed (cell (board s') q) \<longleftrightarrow>
                 isRevealed (cell (board s) q) \<or>
                 (\<exists>qs. fillChain (board s) (row, col) qs \<and> q = last ((row, col) # qs))) \<and>
              cell (board s') q = (cell (board s) q)\<lparr>isRevealed := isRevealed (cell (board s') q)\<rparr> \<and>
              (isMine (cell (board s) q) \<or> isFlagged (cell (board s) q) \<longrightarrow>
                 isRevealed (cell (board s') q) = isRevealed (cell (board s) q)))"
proof -
  from assms(1) have "wellFormed k w" by (rule reachable_wellFormed)
  then have st: "static k (board s)" using assms(2) by (rule wellFormedD(1))
  from revealedCell_closure_returns[OF st assms(3)] obtain s' where
    r: "revealedCell_closure k seen s row col = Inr s'" ..
  note fill = revealedCell_closure_fill[OF st assms(3-8) r]
  have 1: "inb (board s') q = inb (board s) q" for q
    using fill(1) by (rule sameBut_inb)
  have 2: "isRevealed (cell (board s') q) \<longleftrightarrow>
             isRevealed (cell (board s) q) \<or>
             (\<exists>qs. fillChain (board s) (row, col) qs \<and> q = last ((row, col) # qs))"
    if "inb (board s) q" for q
    using fill(2)[OF that] by (simp add: reached_def)
  have f: "floodStep (cell (board s) q) (cell (board s') q)" if "inb (board s) q" for q
    using fill(1) that by (rule sameBut_cell)
  have 3: "cell (board s') q = (cell (board s) q)\<lparr>isRevealed := isRevealed (cell (board s') q)\<rparr>"
    if "inb (board s) q" for q
    using f[OF that] by (simp add: floodStep_def)
  have 4: "isRevealed (cell (board s') q) = isRevealed (cell (board s) q)"
    if "inb (board s) q" "isMine (cell (board s) q) \<or> isFlagged (cell (board s) q)" for q
    using f[OF that(1)] that(2) by (auto simp: floodStep_def)
  from r 1 2 3 4 show ?thesis by blast
qed

theorem flood_fill_region_witness:
  "reachable row_config row_world \<and> board (state row_world) \<in> set (boards row_world) \<and>
   inb (board (state row_world)) (0, 0) \<and>
   \<not> isRevealed (cell (board (state row_world)) (0, 0)) \<and>
   \<not> isFlagged (cell (board (state row_world)) (0, 0)) \<and>
   \<not> isMine (cell (board (state row_world)) (0, 0)) \<and>
   adjacentMines (cell (board (state row_world)) (0, 0)) = 0 \<and>
   0 \<noteq> winThreshold row_config - 1 \<and>
   fillChain (board (state row_world)) (0, 0) [(0, 1), (0, 2)] \<and>
   isMine (cell (board (state row_world)) (0, 3)) \<and>
   (\<exists>s'. revealedCell_closure row_config 0 (state row_world) 0 0 = Inr s' \<and>
         isRevealed (cell (board s') (0, 0)) \<and> isRevealed (cell (board s') (0, 2)) \<and>
         \<not> isRevealed (cell (board s') (0, 3)))"
proof -
  let ?b = "board (state row_world)"
  note 1 = reachable_row_world
  have 2: "?b \<in> set (boards row_world)"
    and 3: "inb ?b (0, 0)"
    and 4: "\<not> isRevealed (cell ?b (0, 0))"
    and 5: "\<not> isFlagged (cell ?b (0, 0))"
    and 6: "\<not> isMine (cell ?b (0, 0))"
    and 7: "adjacentMines (cell ?b (0, 0)) = 0"
    and 8: "0 \<noteq> winThreshold row_config - 1"
    and 9: "fillChain ?b (0, 0) [(0, 1), (0, 2)]"
    and 10: "inb ?b (0, 2)" "inb ?b (0, 3)" "isMine (cell ?b (0, 3))" "\<not> isRevealed (cell ?b (0, 3))"
    unfolding row_world_def row_config_def by code_simp+
  from flood_fill_region[OF 1 2 3 4 5 6 7 8] obtain s' where
    r: "revealedCell_closure row_config 0 (state row_world) 0 0 = Inr s'"
    and f: "\<And>q. inb ?b q \<Longrightarrow>
              (isRevealed (cell (board s') q) \<longleftrightarrow>
                 isRevealed (cell ?b q) \<or> (\<exists>qs. fillChain ?b (0, 0) qs \<and> q = last ((0, 0) # qs)))"
    and m: "\<And>q. inb ?b q \<Longrightarrow> isMine (cell ?b q) \<or> isFlagged (cell ?b q) \<Longrightarrow>
              isRevealed (cell (board s') q) = isRevealed (cell ?b q)"
    by blast
  have "fillChain ?b (0, 0) [] \<and> (0, 0) = last ((0, 0) # [])" by simp
  with f[OF 3] have a: "isRevealed (cell (board s') (0, 0))" by blast
  have "fillChain ?b (0, 0) [(0, 1), (0, 2)] \<and> (0, 2) = last ((0, 0) # [(0, 1), (0, 2)])"
    using 9 by simp
  with f[OF 10(1)] have b: "isRevealed (cell (board s') (0, 2))" by blast
  from m[OF 10(2)] 10(3,4) have c: "\<not> isRevealed (cell (board s') (0, 3))" by simp
  from r a b c 1 2 3 4 5 6 7 8 9 10(3) show ?thesis by blast
qed

text \<open>
  Claim C2 as stated fails, in two ways, both on the shipped grid with the mines
  of \<open>draws_corridor\<close>, where the top row has no adjacent mines. First: flag (0, 0) and
  (0, 2), reveal (0, 1), remove both flags. No flag is left, and (0, 0), (0, 1),
  (0, 2) are connected cells without adjacent mines. Revealing (0, 0) stops at
  the revealed cell (0, 1): (0, 2) stays unrevealed. Second: right after
  mounting flag (0, 1) and reveal (0, 0). The fill does not pass the flag:
  neither (0, 1) nor (0, 2) is revealed, although the claim has the region not
  blocked by flags.
\<close>

theorem flood_fill_blocked_counterexample:
  "reachable constants corridor6 \<and>
   \<not> isRevealed (cell (board (state corridor6)) (0, 0)) \<and>
   \<not> isFlagged (cell (board (state corridor6)) (0, 0)) \<and>
   adjacentMines (cell (board (state corridor6)) (0, 0)) = 0 \<and>
   \<not> isMine (cell (board (state corridor6)) (0, 0)) \<and>
   countCells isFlagged (board (state corridor6)) = 0 \<and>
   zeroChain (board (state corridor6)) (0, 0) [(0, 1), (0, 2)] \<and>
   step constants corridor6 (Click 0 0) = Some (Inr corridor7) \<and>
   step constants corridor7 Timeout = Some (Inr corridor8) \<and>
   isRevealed (cell (board (state corridor8)) (0, 0)) \<and>
   \<not> isRevealed (cell (board (state corridor8)) (0, 2)) \<and>
   reachable constants flagged1 \<and>
   \<not> isRevealed (cell (board (state flagged1)) (0, 0)) \<and>
   \<not> isFlagged (cell (board (state flagged1)) (0, 0)) \<and>
   adjacentMines (cell (board (state flagged1)) (0, 0)) = 0 \<and>
   \<not> isMine (cell (board (state flagged1)) (0, 0)) \<and>
   isFlagged (cell (board (state flagged1)) (0, 1)) \<and>
   zeroChain (board (state flagged1)) (0, 0) [(0, 1), (0, 2)] \<and>
   step constants flagged1 (Click 0 0) = Some (Inr flagged2) \<and>
   step constants flagged2 Timeout = Some (Inr flagged3) \<and>
   isRevealed (cell (board (state flagged3)) (0, 0)) \<and>
   \<not> isRevealed (cell (board (state flagged3)) (0, 1)) \<and>
   \<not> isRevealed (cell (board (state flagged3)) (0, 2))"
  using corridor_steps corridor6_values corridor8_values flagged1_values flagged3_values
  by (simp add: Let_def)

subsection \<open>C3\<close>

text \<open>
  Claim C3, the failing input. On the shipped grid with the mines of \<open>draws_bottom\<close>,
  the first click, on (0, 0), reveals all 54 cells that are not mines through
  the flood fill: \<open>revealedCount\<close> becomes \<open>rows * cols - numMines\<close>, but
  \<open>isGameWon\<close> stays false and no mine is flagged. The next click, on the mine
  (7, 0), loses the game.
\<close>

theorem flood_fill_finish_no_win:
  "useEffect_mount constants draws_bottom = Some (Inr bottom0) \<and>
   revealedCell constants bottom0 0 0 = Inr bottom1 \<and>
   revealedCount bottom1 = winThreshold constants \<and>
   countCells (\<lambda>c. \<not> isMine c \<and> \<not> isRevealed c) (board bottom1) = 0 \<and>
   \<not> isGameWon bottom1 \<and> countCells isFlagged (board bottom1) = 0 \<and>
   revealedCell constants bottom1 7 0 = Inr bottom2 \<and> isGameOver bottom2 \<and> \<not> isGameWon bottom2"
  using bottom0_step bottom1_step bottom2_step bottom_values by simp

subsection \<open>C4\<close>

text \<open>
  Claim C4, the failing input. On the shipped grid with the mines of
  \<open>draws_pockets\<close>: the press on (7, 7) and its timer reveal 52 cells, all that are
  not mines but the two corners (0, 0) and (0, 7). Then (0, 0) is pressed, a
  secondary click flags the mine (0, 1), and (0, 7) is pressed, before the timer
  of (0, 0) runs. That timer reveals (0, 0) and brings \<open>revealedCount\<close> to 53.
  Now (0, 7) is the last cell that is not a mine, but the render that has set
  its timer has read 52 from \<open>revealedCount\<close>: the timer reveals (0, 7) and
  \<open>revealedCount\<close> becomes \<open>rows * cols - numMines\<close>, while the test of the
  winning branch compares 52. \<open>isGameWon\<close> stays false and the nine other mines
  are neither revealed nor flagged.
\<close>

theorem last_reveal_stale_count:
  "mount constants draws_pockets = Some (Inr pockets0) \<and>
   step constants pockets0 (Click 7 7) = Some (Inr pockets1) \<and>
   step constants pockets1 Timeout = Some (Inr pockets2) \<and>
   step constants pockets2 (Click 0 0) = Some (Inr pockets3) \<and>
   step constants pockets3 (RightClick 0 1) = Some (Inr pockets4) \<and>
   step constants pockets4 (Click 0 7) = Some (Inr pockets5) \<and>
   step constants pockets5 Timeout = Some (Inr pockets6) \<and>
   revealedCount (state pockets6) = winThreshold constants - 1 \<and>
   countCells (\<lambda>c. \<not> isMine c \<and> \<not> isRevealed c) (board (state pockets6)) = 1 \<and>
   \<not> isMine (cell (board (state pockets6)) (0, 7)) \<and>
   \<not> isRevealed (cell (board (state pockets6)) (0, 7)) \<and>
   \<not> isFlagged (cell (board (state pockets6)) (0, 7)) \<and>
   timers pockets6 = [(2, 0, 7)] \<and> r_revealedCount (renders pockets6 ! 2) = 52 \<and>
   step constants pockets6 Timeout = Some (Inr pockets7) \<and>
   isRevealed (cell (board (state pockets7)) (0, 7)) \<and>
   revealedCount (state pockets7) = winThreshold constants \<and>
   countCells (\<lambda>c. \<not> isMine c \<and> \<not> isRevealed c) (board (state pockets7)) = 0 \<and>
   \<not> isGameWon (state pockets7) \<and>
   countCells (\<lambda>c. \<not> isRevealed c \<and> \<not> isFlagged c) (board (state pockets7)) = 9"
  using pockets_steps pockets6_values pockets7_values
  by (simp add: Let_def winThreshold_def constants_def)

subsection \<open>C5\<close>

text \<open>
  Claim C5. Revealing an unrevealed, unflagged mine returns a state in which the
  game is over (\<open>isGameOver\<close>, the "lost" flag) and every cell of the board is
  revealed; the board keeps its shape.
\<close>

theorem revealedCell_mine:
  assumes "inb (board s) (row, col)"
    and "isMine (cell (board s) (row, col))"
    and "\<not> isRevealed (cell (board s) (row, col))"
    and "\<not> isFlagged (cell (board s) (row, col))"
  shows "\<exists>s'. revealedCell k s row col = Inr s' \<and> isGameOver s' \<and>
              (\<forall>p. inb (board s') p = inb (board s) p) \<and>
              (\<forall>p. inb (board s') p \<longrightarrow> isRevealed (cell (board s') p))"
  using assms
  by (simp add: revealedCell_def revealedCell_closure_def cellAt_inb Let_def cell_revealAll)

theorem revealedCell_mine_witness:
  "inb (board tiny_state) (0, 1) \<and> isMine (cell (board tiny_state) (0, 1)) \<and>
   \<not> isRevealed (cell (board tiny_state) (0, 1)) \<and> \<not> isFlagged (cell (board tiny_state) (0, 1)) \<and>
   (\<exists>s'. revealedCell tiny_config tiny_state 0 1 = Inr s' \<and> isGameOver s' \<and>
         isRevealed (cell (board s') (0, 0)) \<and> isRevealed (cell (board s') (0, 1)))"
proof -
  have 1: "inb (board tiny_state) (0, 1)"
    and 2: "isMine (cell (board tiny_state) (0, 1))"
    and 3: "\<not> isRevealed (cell (board tiny_state) (0, 1))"
    and 4: "\<not> isFlagged (cell (board tiny_state) (0, 1))"
    and 5: "inb (board tiny_state) (0, 0)"
    unfolding tiny_state_def tiny_config_def by code_simp+
  from revealedCell_mine[OF 1 2 3 4, of tiny_config] 5 1 2 3 4 show ?thesis by blast
qed

subsection \<open>C6\<close>




subsection \<open>C7\<close>

text \<open>
  Claim C7, as amended. In every reachable world, on the board in the state
  and on every older board, the list \<open>surroundingCells\<close> of a cell is what
  \<^verbatim>\<open>surroundingCells(row, col)\<close> has computed at board creation: its entries
  are positions of the grid, they are pairwise different and at most nine, the
  cell's own position is one of them, and at most eight entries differ from it.
\<close>

theorem surroundingCells_field:
  assumes "reachable k w" and "b = board (state w) \<or> b \<in> set (boards w)"
    and "inb b (row, col)"
  shows "surroundingCells (cell b (row, col)) = surroundingCells_of k row col \<and>
         (\<forall>q\<in>set (surroundingCells (cell b (row, col))). inb b q) \<and>
         length (surroundingCells (cell b (row, col))) \<le> 9 \<and>
         distinct (surroundingCells (cell b (row, col))) \<and>
         (row, col) \<in> set (surroundingCells (cell b (row, col))) \<and>
         length (filter (\<lambda>q. q \<noteq> (row, col)) (surroundingCells (cell b (row, col)))) \<le> 8"
proof -
  let ?ns = "surroundingCells_of k row col"
  from assms(1) have wf: "wellFormed k w" by (rule reachable_wellFormed)
  have st: "static k b"
    using assms(2) wellFormed_static_state[OF wf] wellFormedD(1)[OF wf] by blast
  have eq: "surroundingCells (cell b (row, col)) = ?ns"
    using static_nbrs[OF st assms(3)] by simp
  have hs: "hasSize (GRID_SIZE_row k) (GRID_SIZE_col k) b"
    using st by (simp add: static_def)
  have self: "(row, col) \<in> set ?ns"
    using assms(3) hs by (simp add: set_surroundingCells_of hasSize_inb)
  have d: "distinct ?ns" by (rule distinct_surroundingCells_of)
  have "length (filter (\<lambda>q. q \<noteq> (row, col)) ?ns) +
        length (filter (\<lambda>q. \<not> q \<noteq> (row, col)) ?ns) = length ?ns"
    by (rule sum_length_filter_compl)
  moreover have "length (filter (\<lambda>q. \<not> q \<noteq> (row, col)) ?ns) \<ge> 1"
    using self by (auto simp: Suc_le_eq filter_empty_conv)
  ultimately have "length (filter (\<lambda>q. q \<noteq> (row, col)) ?ns) \<le> 8"
    using length_surroundingCells_of[of k row col] by linarith
  moreover have "\<forall>q\<in>set ?ns. inb b q"
    using surroundingCells_of_inb[OF hs] by blast
  ultimately show ?thesis
    using eq self d length_surroundingCells_of[of k row col] by simp
qed

theorem surroundingCells_field_witness:
  "reachable row_config row_world \<and> inb (board (state row_world)) (0, 1) \<and>
   surroundingCells (cell (board (state row_world)) (0, 1)) = surroundingCells_of row_config 0 1 \<and>
   (0, 1) \<in> set (surroundingCells (cell (board (state row_world)) (0, 1))) \<and>
   length (surroundingCells (cell (board (state row_world)) (0, 1))) \<le> 9"
proof -
  have 1: "inb (board (state row_world)) (0, 1)"
    unfolding row_world_def row_config_def by code_simp
  from surroundingCells_field[OF reachable_row_world disjI1[OF refl] 1] reachable_row_world 1
  show ?thesis by blast
qed

text \<open>
  Claim C7 as stated fails: on the shipped 8 by 8 grid, right after mounting,
  the list of the cell (3, 3) has nine entries, and (3, 3) is the fifth.
\<close>

theorem surroundingCells_self_counterexample:
  "surroundingCells (cell (board bottom0) (3, 3)) =
     [(2, 2), (2, 3), (2, 4), (3, 2), (3, 3), (3, 4), (4, 2), (4, 3), (4, 4)]"
  unfolding bottom0_def by code_simp

subsection \<open>C8\<close>

text \<open>
  Claim C8, as amended. \<^verbatim>\<open>initializeBoard\<close> has no check of the
  configuration. On a grid with at least one row and one column and with
  \<open>NUM_MINES \<ge> GRID_SIZE.row * GRID_SIZE.col\<close>, no error is raised whatever
  the draws are; when \<open>NUM_MINES\<close> is larger than the number of cells the
  placement loop is still running after any number of draws; and when it does
  return, \<open>NUM_MINES\<close> is the number of cells and so is the number of mines.
\<close>

theorem initializeBoard_no_check:
  assumes "GRID_SIZE_row k * GRID_SIZE_col k \<le> NUM_MINES k"
    and "0 < GRID_SIZE_row k" and "0 < GRID_SIZE_col k"
    and "inRange k draws"
  shows "(\<forall>e. initializeBoard k draws \<noteq> Some (Inl e)) \<and>
         (GRID_SIZE_row k * GRID_SIZE_col k < NUM_MINES k \<longrightarrow> initializeBoard k draws = None) \<and>
         (\<forall>b. initializeBoard k draws = Some (Inr b) \<longrightarrow>
              NUM_MINES k = GRID_SIZE_row k * GRID_SIZE_col k \<and>
              countCells isMine b = GRID_SIZE_row k * GRID_SIZE_col k)"
proof -
  have nt: "initializeBoard k draws \<noteq> Some (Inl e)" for e
    using assms(4) by (rule initializeBoard_no_throw)
  have r: "NUM_MINES k = GRID_SIZE_row k * GRID_SIZE_col k \<and>
           countCells isMine b = GRID_SIZE_row k * GRID_SIZE_col k"
    if "initializeBoard k draws = Some (Inr b)" for b
  proof -
    from initializeBoard_Inr(1,2)[OF that] countCells_le[of _ _ b isMine]
    have "NUM_MINES k \<le> GRID_SIZE_row k * GRID_SIZE_col k" "countCells isMine b = NUM_MINES k"
      by auto
    with assms(1) show ?thesis by simp
  qed
  have "initializeBoard k draws = None" if "GRID_SIZE_row k * GRID_SIZE_col k < NUM_MINES k"
  proof (cases "initializeBoard k draws")
    case None
    then show ?thesis .
  next
    case (Some x)
    then show ?thesis using nt r that by (cases x) auto
  qed
  with nt r show ?thesis by blast
qed

theorem initializeBoard_no_check_witness:
  "GRID_SIZE_row crowded_config * GRID_SIZE_col crowded_config \<le> NUM_MINES crowded_config \<and>
   0 < GRID_SIZE_row crowded_config \<and> 0 < GRID_SIZE_col crowded_config \<and>
   inRange crowded_config [(0, 0), (0, 0), (0, 0)] \<and>
   initializeBoard crowded_config [(0, 0), (0, 0), (0, 0)] = None"
proof -
  have 1: "GRID_SIZE_row crowded_config * GRID_SIZE_col crowded_config \<le> NUM_MINES crowded_config"
    and 2: "0 < GRID_SIZE_row crowded_config" and 3: "0 < GRID_SIZE_col crowded_config"
    and 4: "inRange crowded_config [(0, 0), (0, 0), (0, 0)]"
    and 5: "GRID_SIZE_row crowded_config * GRID_SIZE_col crowded_config < NUM_MINES crowded_config"
    by (simp_all add: crowded_config_def inRange_def)
  from initializeBoard_no_check[OF 1 2 3 4] 5 1 2 3 4 show ?thesis by blast
qed

text \<open>
  Claim C8 as stated fails: with one cell and one mine, \<open>NUM_MINES \<ge> rows * cols\<close>,
  and generation returns a board whose only cell is a mine; no error is raised.
\<close>

theorem initializeBoard_full_counterexample:
  "initializeBoard \<lparr>GRID_SIZE_row = 1, GRID_SIZE_col = 1, NUM_MINES = 1\<rparr> [(0, 0)] =
     Some (Inr [[\<lparr>isMine = True, isRevealed = False, isFlagged = False,
                   adjacentMines = 0, surroundingCells = [(0, 0)]\<rparr>]])"
  by code_simp

subsection \<open>C9\<close>

text \<open>
  Claim C9, as amended. The handlers have no check of \<open>isGameOver\<close> or
  \<open>isGameWon\<close>; what stops them is the state of the cell. Consider the event
  that sets \<open>isGameOver\<close>, and let no press on the board of another game be
  waiting for its timer afterwards. Then every cell of the board is revealed,
  and whatever presses, secondary clicks and timeouts follow, up to the next
  press on the face button, each of them returns and the state stays as it
  is: board, both counters, and the flags. Consider likewise the timeout that
  sets \<open>isGameWon\<close>: then every cell is revealed or flagged, and the state
  stays as it is through all the events that can only reveal (timeouts, and
  presses that are the first on their render).
\<close>

theorem terminal_frozen:
  assumes "reachable k w" and "possible w e" and "step k w e = Some (Inr w1)" and "quiet w1"
  shows "(\<not> isGameOver (state w) \<and> isGameOver (state w1) \<longrightarrow>
            (\<forall>p. inb (board (state w1)) p \<longrightarrow> isRevealed (cell (board (state w1)) p)) \<and>
            (\<forall>es w2. run k noRestart w1 es w2 \<longrightarrow>
               state w2 = state w1 \<and>
               (\<forall>e'. possible w2 e' \<and> noRestart w2 e' \<longrightarrow> (\<exists>w3. step k w2 e' = Some (Inr w3))))) \<and>
         (e = Timeout \<and> \<not> isGameWon (state w) \<and> isGameWon (state w1) \<longrightarrow>
            (\<forall>p. inb (board (state w1)) p \<longrightarrow>
               isRevealed (cell (board (state w1)) p) \<or> isFlagged (cell (board (state w1)) p)) \<and>
            (\<forall>es w2. run k revealOnly w1 es w2 \<longrightarrow> state w2 = state w1))"
proof (intro conjI impI)
  have wf: "wellFormed k w" using assms(1) by (rule reachable_wellFormed)
  have wf1: "wellFormed k w1" using wf assms(2,3) by (rule step_wellFormed)
  {
    assume flip: "\<not> isGameOver (state w) \<and> isGameOver (state w1)"
    have all: "isRevealed (cell (board (state w1)) p)" if "inb (board (state w1)) p" for p
      using wf assms(2,3) flip that by (auto intro: step_declares_loss)
    then show "\<forall>p. inb (board (state w1)) p \<longrightarrow> isRevealed (cell (board (state w1)) p)"
      by blast
    show "\<forall>es w2. run k noRestart w1 es w2 \<longrightarrow>
               state w2 = state w1 \<and>
               (\<forall>e'. possible w2 e' \<and> noRestart w2 e' \<longrightarrow> (\<exists>w3. step k w2 e' = Some (Inr w3)))"
    proof (intro allI impI)
      fix es w2 assume r: "run k noRestart w1 es w2"
      from frozen_run[OF r wf1 assms(4), of isRevealed] all
      have "state w2 = state w1" and "wellFormed k w2" by auto
      then show "state w2 = state w1 \<and>
               (\<forall>e'. possible w2 e' \<and> noRestart w2 e' \<longrightarrow> (\<exists>w3. step k w2 e' = Some (Inr w3)))"
        using step_returns[of k w2] by blast
    qed
  }
  {
    assume flip: "e = Timeout \<and> \<not> isGameWon (state w) \<and> isGameWon (state w1)"
    with assms(3) have t: "timeout k w = Inr w1" by simp
    have all: "isRevealed (cell (board (state w1)) p) \<or> isFlagged (cell (board (state w1)) p)"
      if "inb (board (state w1)) p" for p
      using timeout_declares(2)[OF wf t _ _ that] flip by blast
    then show "\<forall>p. inb (board (state w1)) p \<longrightarrow>
               isRevealed (cell (board (state w1)) p) \<or> isFlagged (cell (board (state w1)) p)"
      by blast
    show "\<forall>es w2. run k revealOnly w1 es w2 \<longrightarrow> state w2 = state w1"
    proof (intro allI impI)
      fix es w2 assume r: "run k revealOnly w1 es w2"
      from frozen_run[OF r wf1 assms(4), of "\<lambda>c. isRevealed c \<or> isFlagged c"] all
      show "state w2 = state w1" by auto
    qed
  }
qed

theorem terminal_frozen_witness:
  "reachable tiny_config tiny_pending \<and> possible tiny_pending Timeout \<and>
   step tiny_config tiny_pending Timeout = Some (Inr tiny_lost) \<and> quiet tiny_lost \<and>
   \<not> isGameOver (state tiny_pending) \<and> isGameOver (state tiny_lost) \<and>
   run tiny_config noRestart tiny_lost [Click 0 0, Timeout, RightClick 0 1] tiny_lost_later \<and>
   state tiny_lost_later = state tiny_lost \<and>
   reachable tiny_config tiny_safe_pending \<and> possible tiny_safe_pending Timeout \<and>
   step tiny_config tiny_safe_pending Timeout = Some (Inr tiny_won) \<and> quiet tiny_won \<and>
   \<not> isGameWon (state tiny_safe_pending) \<and> isGameWon (state tiny_won) \<and>
   run tiny_config revealOnly tiny_won [Click 0 1, Timeout] tiny_won_later \<and>
   state tiny_won_later = state tiny_won"
proof -
  have v: "quiet tiny_lost" "\<not> isGameOver (state tiny_pending)" "isGameOver (state tiny_lost)"
    "quiet tiny_won" "\<not> isGameWon (state tiny_safe_pending)" "isGameWon (state tiny_won)"
    "revealOnly tiny_won (Click 0 1)" "possible tiny_won (Click 0 1)"
    unfolding tiny_lost_def tiny_pending_def tiny_won_def tiny_safe_pending_def tiny_world_def
      tiny_config_def
    by code_simp+
  have p: "possible w Timeout" "revealOnly w Timeout" for w by simp_all
  have r1: "run tiny_config noRestart tiny_lost [Click 0 0, Timeout, RightClick 0 1] tiny_lost_later"
    unfolding tiny_lost_later_def
    by (rule run_play[OF tiny_steps(4), of _ tiny_lost]) (simp_all add: tiny_config_def)
  have "run tiny_config revealOnly tiny_won_later [] tiny_won_later" by (rule run.stop)
  with p(2) p(1) tiny_steps(10)
  have "run tiny_config revealOnly tiny_won_pressed [Timeout] tiny_won_later" by (rule run.go)
  with v(7,8) tiny_steps(8)
  have r2: "run tiny_config revealOnly tiny_won [Click 0 1, Timeout] tiny_won_later" by (rule run.go)
  from terminal_frozen[OF tiny_steps(2) p(1) tiny_steps(3) v(1)] v(2,3) r1
  have a: "state tiny_lost_later = state tiny_lost" by blast
  from terminal_frozen[OF tiny_steps(5) p(1) tiny_steps(6) v(4)] v(5,6) r2
  have b: "state tiny_won_later = state tiny_won" by blast
  from a b r1 r2 v(1-6) p(1) tiny_steps(2,3,5,6) show ?thesis by blast
qed

text \<open>
  Claim C9 as stated fails, after a win and after a loss, both on the shipped
  grid. With the mines of \<open>draws_corner\<close>: revealing (7, 7) opens 53 cells, revealing
  (0, 0) wins and flags the ten mines; the secondary click on (0, 1) then removes
  a flag and takes \<open>flagCount\<close> from 10 to 9. And with a press waiting on the
  board of the next game when the game is lost: every cell of the lost board
  is revealed and \<open>revealedCount\<close> is 1; then the waiting timer runs, puts its
  own board into the state, with ten unrevealed cells, and \<open>revealedCount\<close>
  becomes 55, while \<open>isGameOver\<close> stays true.
\<close>

theorem terminal_moves_counterexample:
  "reachable constants corner4 \<and> isGameWon (state corner4) \<and>
   step constants corner4 (RightClick 0 1) = Some (Inr corner5) \<and>
   flagCount (state corner4) = 10 \<and> flagCount (state corner5) = 9 \<and>
   isFlagged (cell (board (state corner4)) (0, 1)) \<and>
   \<not> isFlagged (cell (board (state corner5)) (0, 1)) \<and>
   reachable constants overrun3 \<and> \<not> isGameOver (state overrun3) \<and>
   step constants overrun3 Timeout = Some (Inr overrun4) \<and>
   isGameOver (state overrun4) \<and> revealedCount (state overrun4) = 1 \<and>
   countCells (\<lambda>c. \<not> isRevealed c) (board (state overrun4)) = 0 \<and>
   step constants overrun4 Timeout = Some (Inr overrun5) \<and>
   isGameOver (state overrun5) \<and> revealedCount (state overrun5) = 55 \<and>
   countCells (\<lambda>c. \<not> isRevealed c) (board (state overrun5)) = 10"
  using corner_steps corner4_values corner5_values overrun3_values overrun4_values overrun5_values
  by (simp add: Let_def)

subsection \<open>C10\<close>

text \<open>
  Claim C10, the failing input. On the shipped grid, with the mines of
  \<open>draws_corner\<close>: a secondary click flags the mine (0, 1), and \<open>flagCount\<close> is 1, the
  number of flagged cells. The cell (0, 0) is pressed, and the face button is
  pressed before the timer runs: the counters are reset and the state holds
  the new board, without flags. Then the timer runs in the render of the press.
  It reveals (0, 0) on the old board and puts the old board into the state,
  with its flag on (0, 1): one cell is flagged and \<open>flagCount\<close> is 0. A
  secondary click on (0, 1) removes the flag, and \<open>flagCount\<close> is -1.
\<close>

theorem flagCount_stale_board:
  "mount constants draws_corner = Some (Inr corner0) \<and>
   step constants corner0 (RightClick 0 1) = Some (Inr restart1) \<and>
   flagCount (state restart1) = 1 \<and> countCells isFlagged (board (state restart1)) = 1 \<and>
   step constants restart1 (Click 0 0) = Some (Inr restart2) \<and>
   step constants restart2 (FaceClick draws_bottom) = Some (Inr restart3) \<and>
   flagCount (state restart3) = 0 \<and> countCells isFlagged (board (state restart3)) = 0 \<and>
   step constants restart3 Timeout = Some (Inr restart4) \<and>
   flagCount (state restart4) = 0 \<and> countCells isFlagged (board (state restart4)) = 1 \<and>
   isFlagged (cell (board (state restart4)) (0, 1)) \<and>
   step constants restart4 (RightClick 0 1) = Some (Inr restart5) \<and>
   flagCount (state restart5) = - 1 \<and> countCells isFlagged (board (state restart5)) = 0"
  using corner_steps restart1_values restart3_values restart4_values restart5_values
  by (simp add: Let_def)


end
